theory Spec2Isabelle
  imports Complex_Main
begin

section \<open>Exceptions\<close>

text \<open>
  Every exception the program can raise is a value. The three exceptions that the
  repository raises itself carry the message of the \<^verbatim>\<open>raise\<close> statement, since
  several of them share one Python class. Exceptions raised by the interpreter carry no
  text. \<open>FloatNotFinite\<close> is not a Python exception: it marks a floating-point
  operation whose IEEE result is an infinity or a NaN, where Python goes on computing
  with that value and this development stops (only finite floats are modelled).
  \<open>ComplexPower\<close> is not a Python exception either: it marks a power of a negative
  float to a fractional exponent, which Python returns as a complex number and stores as
  the numerator of the result; complex numbers are not modelled.
\<close>

datatype error =
    ZeroDivisionError string
  | ValueError string
  | Exception string
  | OverflowError
  | IndexError
  | AttributeError
  | FloatNotFinite
  | ComplexPower

definition ebind :: "error + 'a \<Rightarrow> ('a \<Rightarrow> error + 'b) \<Rightarrow> error + 'b" where
  "ebind m f = (case m of Inl e \<Rightarrow> Inl e | Inr x \<Rightarrow> f x)"

section \<open>Python numbers\<close>

text \<open>
  The fields of a \<^verbatim>\<open>Rational\<close> hold Python numbers: unbounded integers, and
  floats once the true division \<^verbatim>\<open>/\<close> or the power \<^verbatim>\<open>**\<close> has been
  applied. A finite float is represented by the rational number it denotes (signed zeros
  are identified); \<open>round_binary64\<close> is the IEEE 754 round-to-nearest, ties-to-even
  rounding of an exact result to a binary64 value, \<open>None\<close> when the rounded magnitude
  exceeds the largest finite float.
\<close>

datatype pynum = PInt int | PFloat rat

fun bit_length :: "nat \<Rightarrow> nat" where
  "bit_length n = (if n = 0 then 0 else Suc (bit_length (n div 2)))"

declare bit_length.simps [simp del]

definition binade :: "rat \<Rightarrow> int" where
  \<comment> \<open>for \<open>0 < r\<close>, the exponent \<open>e\<close> with \<open>2 ^ e \<le> r < 2 ^ (e + 1)\<close>\<close>
  "binade r =
     (if 1 \<le> r then int (bit_length (nat \<lfloor>r\<rfloor>)) - 1
      else - int (bit_length (nat (\<lceil>1 / r\<rceil> - 1))))"

definition round_half_even :: "rat \<Rightarrow> int" where
  "round_half_even m =
     (let k = \<lfloor>m\<rfloor>; f = m - of_int k
      in if f < 1 / 2 then k else if 1 / 2 < f then k + 1
         else if even k then k else k + 1)"

definition round_binary64 :: "rat \<Rightarrow> rat option" where
  "round_binary64 r =
     (if r = 0 then Some 0
      else
        let e = binade \<bar>r\<bar>;
            q = power_int 2 (max e (- 1022) - 52);
            k = round_half_even (\<bar>r\<bar> / q)
        in if 1024 \<le> e \<or> (e = 1023 \<and> k = 2 ^ 53) then None
           else Some (sgn r * (of_int k * q)))"

definition py_float :: "pynum \<Rightarrow> error + rat" where
  \<comment> \<open>the conversion of an operand to float in mixed arithmetic\<close>
  "py_float a =
     (case a of
        PFloat x \<Rightarrow> Inr x
      | PInt i \<Rightarrow> (case round_binary64 (of_int i) of None \<Rightarrow> Inl OverflowError | Some x \<Rightarrow> Inr x))"

definition float_result :: "rat \<Rightarrow> error + pynum" where
  "float_result r = (case round_binary64 r of None \<Rightarrow> Inl FloatNotFinite | Some x \<Rightarrow> Inr (PFloat x))"

definition py_value :: "pynum \<Rightarrow> rat" where
  "py_value a = (case a of PInt i \<Rightarrow> of_int i | PFloat x \<Rightarrow> x)"

definition py_eq :: "pynum \<Rightarrow> pynum \<Rightarrow> bool" where
  \<comment> \<open>\<^verbatim>\<open>==\<close> compares an int and a float by their exact values\<close>
  "py_eq a b = (py_value a = py_value b)"

definition py_int :: "pynum \<Rightarrow> int" where
  \<comment> \<open>\<^verbatim>\<open>int(x)\<close> truncates a float towards zero\<close>
  "py_int a = (case a of PInt i \<Rightarrow> i | PFloat x \<Rightarrow> (if 0 \<le> x then \<lfloor>x\<rfloor> else \<lceil>x\<rceil>))"

definition py_mul :: "pynum \<Rightarrow> pynum \<Rightarrow> error + pynum" where
  "py_mul a b =
     (case (a, b) of
        (PInt i, PInt j) \<Rightarrow> Inr (PInt (i * j))
      | _ \<Rightarrow> ebind (py_float a) (\<lambda>x. ebind (py_float b) (\<lambda>y. float_result (x * y))))"

definition py_add :: "pynum \<Rightarrow> pynum \<Rightarrow> error + pynum" where
  "py_add a b =
     (case (a, b) of
        (PInt i, PInt j) \<Rightarrow> Inr (PInt (i + j))
      | _ \<Rightarrow> ebind (py_float a) (\<lambda>x. ebind (py_float b) (\<lambda>y. float_result (x + y))))"

definition py_sub :: "pynum \<Rightarrow> pynum \<Rightarrow> error + pynum" where
  "py_sub a b =
     (case (a, b) of
        (PInt i, PInt j) \<Rightarrow> Inr (PInt (i - j))
      | _ \<Rightarrow> ebind (py_float a) (\<lambda>x. ebind (py_float b) (\<lambda>y. float_result (x - y))))"

definition py_truediv :: "pynum \<Rightarrow> pynum \<Rightarrow> error + pynum" where
  \<comment> \<open>\<^verbatim>\<open>a / b\<close>: always a float; int by int is the correctly rounded quotient\<close>
  "py_truediv a b =
     (case (a, b) of
        (PInt i, PInt j) \<Rightarrow>
          (if j = 0 then Inl (ZeroDivisionError [])
           else (case round_binary64 (of_int i / of_int j) of
                   None \<Rightarrow> Inl OverflowError
                 | Some x \<Rightarrow> Inr (PFloat x)))
      | _ \<Rightarrow>
          ebind (py_float a) (\<lambda>x. ebind (py_float b) (\<lambda>y.
            if y = 0 then Inl (ZeroDivisionError []) else float_result (x / y))))"

section \<open>Rational.py\<close>

record rational =
  numer :: pynum
  denom :: pynum

definition simplify :: "rational \<Rightarrow> error + rational" where
  "simplify r =
     (let x = gcd (py_int (numer r)) (py_int (denom r))
      in ebind (py_truediv (numer r) (PInt x)) (\<lambda>n.
         ebind (py_truediv (denom r) (PInt x)) (\<lambda>d.
           Inr \<lparr>numer = PInt (py_int n), denom = PInt (py_int d)\<rparr>)))"

definition Rational :: "pynum \<Rightarrow> pynum \<Rightarrow> bool \<Rightarrow> error + rational" where
  "Rational n d simp =
     (if py_eq d (PInt 0) then Inl (ZeroDivisionError ''The denominator must not be zero!'')
      else if \<not> py_eq d (PInt 1) \<and> simp then simplify \<lparr>numer = n, denom = d\<rparr>
      else Inr \<lparr>numer = n, denom = d\<rparr>)"

definition scale :: "rational \<Rightarrow> pynum \<Rightarrow> error + rational" where
  "scale r x =
     (if py_eq x (PInt 0) then Inl (ZeroDivisionError ''Cannot scale a Rational number by zero!'')
      else ebind (py_mul (numer r) x) (\<lambda>n.
           ebind (py_mul (denom r) x) (\<lambda>d.
             Inr \<lparr>numer = n, denom = d\<rparr>)))"

definition reciprocal :: "rational \<Rightarrow> error + rational" where
  "reciprocal x =
     (if py_eq (denom x) (PInt 0) then Inl (ZeroDivisionError ''Cannot take the reciprocal of zero!'')
      else Rational (denom x) (numer x) False)"

text \<open>
  \<^verbatim>\<open>match_denominators\<close>, \<^verbatim>\<open>add\<close> and \<^verbatim>\<open>subtract\<close> mutate their
  operands. The operands are passed and returned explicitly: \<open>add a b s\<close> returns the
  result together with the two operands as the call leaves them. The operands are taken
  to be two distinct objects, as they are whenever they come from two tokens.
\<close>

definition match_denominators :: "rational \<Rightarrow> rational \<Rightarrow> error + (pynum \<times> rational \<times> rational)" where
  "match_denominators a b =
     (if \<not> py_eq (denom a) (denom b) then
        ebind (scale a (denom b)) (\<lambda>a'.
        ebind (scale b (denom a)) (\<lambda>b'.
          Inr (denom a', a', b')))
      else Inr (denom a, a, b))"

definition multiply :: "rational \<Rightarrow> rational \<Rightarrow> bool \<Rightarrow> error + rational" where
  "multiply a b simp =
     ebind (py_mul (numer a) (numer b)) (\<lambda>n.
     ebind (py_mul (denom a) (denom b)) (\<lambda>d.
       Rational (PInt (py_int n)) (PInt (py_int d)) simp))"

definition divide :: "rational \<Rightarrow> rational \<Rightarrow> bool \<Rightarrow> error + rational" where
  "divide a b simp = ebind (reciprocal b) (\<lambda>rb. multiply a rb simp)"

definition add :: "rational \<Rightarrow> rational \<Rightarrow> bool \<Rightarrow> error + (rational \<times> rational \<times> rational)" where
  "add a b simp =
     ebind (match_denominators a b) (\<lambda>(d, a1, b1).
     ebind (py_add (numer a1) (numer b1)) (\<lambda>n.
     ebind (Rational n d simp) (\<lambda>result.
     ebind (simplify a1) (\<lambda>a2.
     ebind (simplify b1) (\<lambda>b2.
       Inr (result, a2, b2))))))"

definition subtract :: "rational \<Rightarrow> rational \<Rightarrow> bool \<Rightarrow> error + (rational \<times> rational \<times> rational)" where
  "subtract a b simp =
     ebind (match_denominators a b) (\<lambda>(d, a1, b1).
     ebind (py_sub (numer a1) (numer b1)) (\<lambda>n.
     ebind (Rational (PInt (py_int n)) (PInt (py_int d)) simp) (\<lambda>result.
     ebind (simplify a1) (\<lambda>a2.
     ebind (simplify b1) (\<lambda>b2.
       Inr (result, a2, b2))))))"

definition as_float :: "rational \<Rightarrow> error + rat" where
  "as_float r = ebind (py_truediv (numer r) (denom r)) py_float"

definition copy :: "rational \<Rightarrow> bool \<Rightarrow> error + rational" where
  "copy r simp = Rational (numer r) (denom r) simp"

definition rational_eq :: "rational \<Rightarrow> rational \<Rightarrow> error + bool" where
  \<comment> \<open>\<^verbatim>\<open>__eq__\<close> between two Rationals\<close>
  "rational_eq x y =
     ebind (copy x True) (\<lambda>a.
     ebind (copy y True) (\<lambda>b.
       Inr (py_eq (numer a) (numer b) \<and> py_eq (denom a) (denom b))))"

text \<open>
  \<^verbatim>\<open>Rational.parse\<close> on the literals that \<^verbatim>\<open>Expression.parse\<close> hands to it:
  strings of decimal digits and points. \<^verbatim>\<open>Decimal\<close> accepts such a string when it
  has at least one digit and at most one point, and \<^verbatim>\<open>as_integer_ratio\<close> returns
  the value in lowest terms over a positive denominator. Any other character makes the
  literal invalid here; the signs, exponents and names that \<^verbatim>\<open>Decimal\<close> also
  reads never reach it from the tokenizer.
\<close>

definition is_digit :: "char \<Rightarrow> bool" where
  "is_digit c = (c \<in> set ''0123456789'')"

definition digit_value :: "char \<Rightarrow> int" where
  "digit_value c = int (of_char c) - 48"

definition digits_value :: "string \<Rightarrow> int" where
  "digits_value ds = foldl (\<lambda>acc c. 10 * acc + digit_value c) 0 ds"

definition decimal_integer_ratio :: "string \<Rightarrow> (int \<times> int) option" where
  "decimal_integer_ratio s =
     (let ds = filter is_digit s;
          frac = filter is_digit (drop 1 (dropWhile (\<lambda>c. c \<noteq> CHR ''.'') s))
      in if (\<exists>c \<in> set s. \<not> is_digit c \<and> c \<noteq> CHR ''.'')
            \<or> 1 < length (filter (\<lambda>c. c = CHR ''.'') s) \<or> ds = [] then None
         else
           let n = digits_value ds; d = 10 ^ length frac; g = gcd n d
           in Some (n div g, d div g))"

definition Rational_parse :: "string \<Rightarrow> error + rational" where
  "Rational_parse s =
     (case decimal_integer_ratio s of
        None \<Rightarrow> Inl (ValueError ''Couldn't parse as a Rational!'')
      | Some (n, d) \<Rightarrow> Rational (PInt n) (PInt d) True)"

section \<open>Expression.py: tokens and consolidation\<close>

text \<open>
  A \<^verbatim>\<open>Token\<close> holds either an operation or a value, and a value is a
  \<^verbatim>\<open>Rational\<close> or a nested \<^verbatim>\<open>Expression\<close>; an Expression is the list of its
  tokens. The three kinds of token are the three constructors below.
\<close>

datatype operation = ADD | SUBTRACT | MULTIPLY | DIVIDE | EXPONENT

datatype token =
    TOperation operation
  | TRational rational
  | TExpression "token list"

type_synonym expression = "token list"

definition is_operation :: "token \<Rightarrow> bool" where
  "is_operation t = (case t of TOperation _ \<Rightarrow> True | _ \<Rightarrow> False)"

definition is_value :: "token \<Rightarrow> bool" where
  "is_value t = (case t of TOperation _ \<Rightarrow> False | _ \<Rightarrow> True)"

fun is_valid_from :: "bool \<Rightarrow> expression \<Rightarrow> bool" where
  "is_valid_from on_value [] = True"
| "is_valid_from on_value (t # ts) =
     (if is_value t \<noteq> on_value then False else is_valid_from (\<not> on_value) ts)"

definition is_valid :: "expression \<Rightarrow> bool" where
  "is_valid tokens = is_valid_from True tokens"

text \<open>
  The loop of \<^verbatim>\<open>consolidate\<close>, with its state \<open>(i, tokens)\<close>. At \<open>i = 0\<close>
  Python's \<^verbatim>\<open>tokens[i - 1]\<close> is the last token and \<^verbatim>\<open>tokens[:i - 1]\<close> is all
  but the last; \<^verbatim>\<open>tokens[i + 1]\<close> raises IndexError at the last index. After a
  replacement the source sets \<^verbatim>\<open>i = 0\<close> and then increments, so the scan
  resumes at index 1.
\<close>

function consolidate_from :: "operation list \<Rightarrow> nat \<Rightarrow> expression \<Rightarrow> error + expression" where
  "consolidate_from operations i tokens =
     (if i < length tokens \<and> 4 \<le> length tokens then
        (case tokens ! i of
           TOperation opn \<Rightarrow>
             if opn \<in> set operations then
               (if i + 1 < length tokens then
                  consolidate_from operations 1
                    ((if i = 0 then butlast tokens else take (i - 1) tokens)
                     @ [TExpression [if i = 0 then last tokens else tokens ! (i - 1),
                                     tokens ! i, tokens ! (i + 1)]]
                     @ drop (i + 2) tokens)
                else Inl IndexError)
             else consolidate_from operations (i + 1) tokens
         | _ \<Rightarrow> consolidate_from operations (i + 1) tokens)
      else Inr tokens)"
  by pat_completeness auto
termination
  by (relation "measures [\<lambda>(ops, i, ts). if i = 0 then 1 else 0,
                          \<lambda>(ops, i, ts). length ts,
                          \<lambda>(ops, i, ts). length ts - i]") auto

declare consolidate_from.simps [simp del]

definition consolidate :: "operation list \<Rightarrow> expression \<Rightarrow> error + expression" where
  "consolidate operations tokens = consolidate_from operations 0 tokens"

definition pemdas :: "expression \<Rightarrow> error + expression" where
  "pemdas tokens =
     ebind (consolidate [EXPONENT] tokens) (\<lambda>t1.
     ebind (consolidate [MULTIPLY, DIVIDE] t1) (\<lambda>t2.
       consolidate [ADD, SUBTRACT] t2))"

text \<open>The operations that occur as tokens of an Expression itself (not nested).\<close>

definition top_ops :: "expression \<Rightarrow> operation set" where
  "top_ops ts = {opn. TOperation opn \<in> set ts}"

text \<open>
  The number of operations and Rationals below a token, at least 1 for every token: the
  measure by which the evaluation of an Expression terminates.
\<close>

fun leaves :: "token \<Rightarrow> nat" where
  "leaves (TOperation opn) = 1"
| "leaves (TRational r) = 1"
| "leaves (TExpression ts) = max 1 (sum_list (map leaves ts))"

subsection \<open>Consolidation of a valid Expression\<close>

lemma is_valid_from_nth:
  "is_valid_from b ts \<longleftrightarrow> (\<forall>j < length ts. is_value (ts ! j) = (if even j then b else \<not> b))"
proof (induction ts arbitrary: b)
  case Nil
  then show ?case by simp
next
  case (Cons t ts)
  show ?case
  proof
    assume a: "is_valid_from b (t # ts)"
    then have h: "is_value t = b" "is_valid_from (\<not> b) ts" by (auto split: if_splits)
    show "\<forall>j < length (t # ts). is_value ((t # ts) ! j) = (if even j then b else \<not> b)"
    proof (intro allI impI)
      fix j assume "j < length (t # ts)"
      then show "is_value ((t # ts) ! j) = (if even j then b else \<not> b)"
        using h Cons.IH[of "\<not> b"] by (cases j) auto
    qed
  next
    assume a: "\<forall>j < length (t # ts). is_value ((t # ts) ! j) = (if even j then b else \<not> b)"
    then have "is_value t = b" by force
    moreover have "\<forall>j < length ts. is_value (ts ! j) = (if even j then \<not> b else \<not> \<not> b)"
    proof (intro allI impI)
      fix j assume "j < length ts"
      then have "is_value ((t # ts) ! Suc j) = (if even (Suc j) then b else \<not> b)"
        using a by (metis Suc_less_eq length_Cons)
      then show "is_value (ts ! j) = (if even j then \<not> b else \<not> \<not> b)" by simp
    qed
    ultimately show "is_valid_from b (t # ts)" using Cons.IH[of "\<not> b"] by simp
  qed
qed

lemma is_valid_nth: "is_valid ts \<longleftrightarrow> (\<forall>j < length ts. is_value (ts ! j) = even j)"
  by (auto simp add: is_valid_def is_valid_from_nth)

lemma valid_op_index_odd:
  assumes "is_valid ts" "i < length ts" "ts ! i = TOperation opn"
  shows "odd i"
  using assms by (auto simp: is_valid_nth is_value_def)

lemma collapse_valid:
  assumes v: "is_valid ts" and l: "i + 1 < length ts" and opi: "ts ! i = TOperation opn"
  defines "ts' \<equiv> take (i - 1) ts @ [TExpression [ts ! (i - 1), ts ! i, ts ! (i + 1)]] @ drop (i + 2) ts"
  shows "length ts' + 2 = length ts" and "is_valid ts'" and "top_ops ts' \<subseteq> top_ops ts"
    and "sum_list (map leaves ts') = sum_list (map leaves ts)"
proof -
  have i: "i < length ts" using l by simp
  have oi: "odd i" using valid_op_index_odd[OF v i opi] .
  then have i1: "1 \<le> i" by (cases i) auto
  show len: "length ts' + 2 = length ts" using l i1 by (simp add: ts'_def)
  show "is_valid ts'"
    unfolding is_valid_nth
  proof (intro allI impI)
    fix j assume j: "j < length ts'"
    consider "j < i - 1" | "j = i - 1" | "i - 1 < j" by linarith
    then show "is_value (ts' ! j) = even j"
    proof cases
      case 1
      then have "ts' ! j = ts ! j" using l by (simp add: ts'_def nth_append)
      then show ?thesis using v 1 l by (simp add: is_valid_nth)
    next
      case 2
      then have "ts' ! j = TExpression [ts ! (i - 1), ts ! i, ts ! (i + 1)]"
        using l by (simp add: ts'_def nth_append)
      then show ?thesis using 2 oi i1 by (simp add: is_value_def)
    next
      case 3
      then have "ts' ! j = ts ! (j + 2)" using l i1 j len
        by (simp add: ts'_def nth_append)
      then show ?thesis using v j len by (simp add: is_valid_nth)
    qed
  qed
  have "set ts' \<subseteq> set ts \<union> {TExpression [ts ! (i - 1), ts ! i, ts ! (i + 1)]}"
    unfolding ts'_def using set_take_subset[of "i - 1" ts] set_drop_subset[of "i + 2" ts] by auto
  then show "top_ops ts' \<subseteq> top_ops ts" by (auto simp: top_ops_def)
  have split: "ts = take (i - 1) ts @ [ts ! (i - 1), ts ! i, ts ! (i + 1)] @ drop (i + 2) ts"
  proof -
    obtain j where j: "i = Suc j" using i1 by (cases i) auto
    have d0: "drop j ts = ts ! j # drop (Suc j) ts"
      using i j by (simp add: Cons_nth_drop_Suc)
    have d1: "drop (Suc j) ts = ts ! Suc j # drop (Suc (Suc j)) ts"
      using i j by (simp add: Cons_nth_drop_Suc)
    have d2: "drop (Suc (Suc j)) ts = ts ! Suc (Suc j) # drop (Suc (Suc (Suc j))) ts"
      using l j by (simp add: Cons_nth_drop_Suc)
    have "ts = take j ts @ drop j ts" by simp
    also have "\<dots> = take j ts @ [ts ! j, ts ! Suc j, ts ! Suc (Suc j)] @ drop (Suc (Suc (Suc j))) ts"
      by (simp only: d0 d1 d2 append_Cons append_Nil)
    finally show ?thesis using j by simp
  qed
  have pos: "1 \<le> leaves t" for t by (cases t) auto
  have "sum_list (map leaves ts)
      = sum_list (map leaves (take (i - 1) ts)) + (leaves (ts ! (i - 1)) + leaves (ts ! i) + leaves (ts ! (i + 1)))
        + sum_list (map leaves (drop (i + 2) ts))"
    by (subst split) simp
  moreover have "leaves (TExpression [ts ! (i - 1), ts ! i, ts ! (i + 1)])
      = leaves (ts ! (i - 1)) + leaves (ts ! i) + leaves (ts ! (i + 1))"
    using pos[of "ts ! i"] by simp
  ultimately show "sum_list (map leaves ts') = sum_list (map leaves ts)"
    by (simp add: ts'_def)
qed

lemma valid_odd_op_not_last:
  assumes "is_valid ts" "odd (length ts)" "i < length ts" "ts ! i = TOperation opn"
  shows "i + 1 < length ts"
proof -
  have "odd i" using valid_op_index_odd[OF assms(1,3,4)] .
  moreover have "i + 1 \<noteq> length ts"
  proof
    assume "i + 1 = length ts"
    then have "odd (Suc i)" using assms(2) by simp
    then show False using \<open>odd i\<close> by simp
  qed
  ultimately show ?thesis using assms(3) by simp
qed

lemma consolidate_from_keeps:
  assumes "is_valid ts" "consolidate_from ops i ts = Inr r"
  shows "is_valid r \<and> sum_list (map leaves r) = sum_list (map leaves ts)
           \<and> (2 \<le> length ts \<longrightarrow> 2 \<le> length r)"
  using assms
proof (induction ops i ts rule: consolidate_from.induct)
  case (1 ops i ts)
  show ?case
  proof (cases "i < length ts \<and> 4 \<le> length ts")
    case False
    then have "consolidate_from ops i ts = Inr ts" by (subst consolidate_from.simps) auto
    then show ?thesis using "1.prems" by simp
  next
    case True
    note run = True
    show ?thesis
    proof (cases "\<exists>opn. ts ! i = TOperation opn \<and> opn \<in> set ops")
      case True
      then obtain opn where opn: "ts ! i = TOperation opn" "opn \<in> set ops" by blast
      from run have i: "i < length ts" by simp
      have oi: "odd i" using valid_op_index_odd[OF "1.prems"(1) i opn(1)] .
      then have i0: "i \<noteq> 0" by (cases i) auto
      have c1: "i + 1 < length ts"
      proof (rule ccontr)
        assume "\<not> i + 1 < length ts"
        then have "consolidate_from ops i ts = Inl IndexError"
          using run opn by (subst consolidate_from.simps) simp
        then show False using "1.prems"(2) by simp
      qed
      define ts' where "ts' = take (i - 1) ts @ [TExpression [ts ! (i - 1), ts ! i, ts ! (i + 1)]] @ drop (i + 2) ts"
      note c = collapse_valid[OF "1.prems"(1) c1 opn(1), folded ts'_def]
      have step: "consolidate_from ops i ts = consolidate_from ops 1 ts'"
        using run opn i0 c1 by (subst consolidate_from.simps) (simp add: ts'_def)
      have "is_valid r \<and> sum_list (map leaves r) = sum_list (map leaves ts')
              \<and> (2 \<le> length ts' \<longrightarrow> 2 \<le> length r)"
        using "1.IH"(1)[OF run opn(1) opn(2) c1] i0 c(2) step "1.prems"(2)
        by (simp add: ts'_def)
      then show ?thesis using c(1) c(4) run by auto
    next
      case False
      then have step: "consolidate_from ops i ts = consolidate_from ops (i + 1) ts"
        using run by (subst consolidate_from.simps) (auto split: token.splits)
      show ?thesis
      proof (cases "ts ! i")
        case (TOperation opn)
        then have "opn \<notin> set ops" using False by simp
        from "1.IH"(2)[OF run TOperation this "1.prems"(1)] step "1.prems"(2)
        show ?thesis by simp
      next
        case (TRational x)
        from "1.IH"(3)[OF run TRational "1.prems"(1)] step "1.prems"(2)
        show ?thesis by simp
      next
        case (TExpression x)
        from "1.IH"(4)[OF run TExpression "1.prems"(1)] step "1.prems"(2)
        show ?thesis by simp
      qed
    qed
  qed
qed

lemma pemdas_keeps:
  assumes "is_valid ts" "pemdas ts = Inr r"
  shows "is_valid r \<and> sum_list (map leaves r) = sum_list (map leaves ts)
           \<and> (2 \<le> length ts \<longrightarrow> 2 \<le> length r)"
proof -
  obtain t1 where t1: "consolidate_from [EXPONENT] 0 ts = Inr t1"
    using assms(2) by (cases "consolidate_from [EXPONENT] 0 ts") (auto simp: pemdas_def consolidate_def ebind_def)
  obtain t2 where t2: "consolidate_from [MULTIPLY, DIVIDE] 0 t1 = Inr t2"
    using assms(2) t1 by (cases "consolidate_from [MULTIPLY, DIVIDE] 0 t1") (auto simp: pemdas_def consolidate_def ebind_def)
  have t3: "consolidate_from [ADD, SUBTRACT] 0 t2 = Inr r"
    using assms(2) t1 t2 by (simp add: pemdas_def consolidate_def ebind_def)
  note k1 = consolidate_from_keeps[OF assms(1) t1]
  note k2 = consolidate_from_keeps[OF conjunct1[OF k1] t2]
  note k3 = consolidate_from_keeps[OF conjunct1[OF k2] t3]
  show ?thesis using k1 k2 k3 by simp
qed

lemma leaves_nth_less:
  assumes "2 \<le> length ts" "j < length ts"
  shows "leaves (ts ! j) < sum_list (map leaves ts)"
proof -
  have pos: "1 \<le> leaves t" for t by (cases t) auto
  have "ts = take j ts @ ts ! j # drop (Suc j) ts" using assms(2) by (rule id_take_nth_drop)
  then have eq: "sum_list (map leaves ts)
      = sum_list (map leaves (take j ts)) + leaves (ts ! j) + sum_list (map leaves (drop (Suc j) ts))"
    by (metis (no_types, lifting) add.assoc map_append list.simps(9) sum_list.Cons sum_list_append)
  have ge: "length xs \<le> sum_list (map leaves xs)" for xs
  proof (induction xs)
    case Nil then show ?case by simp
  next
    case (Cons x xs) then show ?case using pos[of x] by simp
  qed
  have "1 \<le> length (take j ts) + length (drop (Suc j) ts)" using assms by simp
  then have "1 \<le> sum_list (map leaves (take j ts)) + sum_list (map leaves (drop (Suc j) ts))"
    using ge[of "take j ts"] ge[of "drop (Suc j) ts"] by linarith
  then show ?thesis using eq by linarith
qed

section \<open>Expression.py: evaluation\<close>

text \<open>
  \<^verbatim>\<open>op\<close> dispatches one operation. The EXPONENT case computes
  \<^verbatim>\<open>a.as_float() ** b.as_float()\<close> and passes the float to the constructor as the
  numerator, with the default denominator 1. The power of two floats is computed by the
  platform's C library; it is the parameter \<open>fpow\<close>, from two finite floats to a
  finite float or an exception. Where Python's power is a complex number (a negative base
  with a fractional exponent), \<open>fpow\<close> is to return the marker \<open>ComplexPower\<close>:
  Python goes on there with a Rational whose numerator is that complex number, and the
  model says nothing about it. What is stated about EXPONENT is stated for arguments
  where \<open>fpow\<close> returns a float.
\<close>

definition op :: "(rat \<Rightarrow> rat \<Rightarrow> error + rat) \<Rightarrow> rational \<Rightarrow> rational \<Rightarrow> operation \<Rightarrow> error + rational" where
  "op fpow a b operation =
     (case operation of
        ADD \<Rightarrow> ebind (add a b True) (\<lambda>(result, a', b'). Inr result)
      | SUBTRACT \<Rightarrow> ebind (subtract a b True) (\<lambda>(result, a', b'). Inr result)
      | MULTIPLY \<Rightarrow> multiply a b True
      | DIVIDE \<Rightarrow> divide a b True
      | EXPONENT \<Rightarrow>
          ebind (as_float a) (\<lambda>x.
          ebind (as_float b) (\<lambda>y.
          ebind (fpow x y) (\<lambda>z.
            Rational (PFloat z) (PInt 1) True))))"

text \<open>
  \<^verbatim>\<open>Expression.calculate\<close>. The method consolidates the receiver's token list in
  place and the arithmetic mutates the Rationals it combines; none of these objects is
  read again during one evaluation, so the function returns the resulting Rational only.
  A token that holds an operation has the value \<^verbatim>\<open>None\<close>, whose
  \<^verbatim>\<open>calculate\<close> is an AttributeError; a token that holds a value has the operation
  \<^verbatim>\<open>None\<close>, which \<^verbatim>\<open>op\<close> rejects.
\<close>

function calculate :: "(rat \<Rightarrow> rat \<Rightarrow> error + rat) \<Rightarrow> expression \<Rightarrow> error + rational"
  and value_calculate :: "(rat \<Rightarrow> rat \<Rightarrow> error + rat) \<Rightarrow> token \<Rightarrow> error + rational" where
  "calculate fpow tokens =
     (if \<not> is_valid tokens then Inl (Exception ''Can't calculate an invalid expression!'')
      else if length tokens = 1 then value_calculate fpow (tokens ! 0)
      else
        (case pemdas tokens of
           Inl err \<Rightarrow> Inl err
         | Inr ts \<Rightarrow>
             if \<not> is_valid ts then Inl (Exception ''Something really went wrong!'')
             else if length ts = 0 then Inl IndexError
             else
               (case value_calculate fpow (ts ! 0) of
                  Inl err \<Rightarrow> Inl err
                | Inr a \<Rightarrow>
                    if length ts \<le> 2 then Inl IndexError
                    else
                      (case value_calculate fpow (ts ! 2) of
                         Inl err \<Rightarrow> Inl err
                       | Inr b \<Rightarrow>
                           (case ts ! 1 of
                              TOperation opn \<Rightarrow> op fpow a b opn
                            | _ \<Rightarrow> Inl (ValueError ''Invalid operation!''))))))"
| "value_calculate fpow (TOperation opn) = Inl AttributeError"
| "value_calculate fpow (TRational r) = Inr r"
| "value_calculate fpow (TExpression e) = calculate fpow e"
  by pat_completeness auto
termination
proof (relation "measures
    [\<lambda>x. case x of Inl (f, ts) \<Rightarrow> sum_list (map leaves ts) | Inr (f, t) \<Rightarrow> leaves t,
     \<lambda>x. case x of Inl (f, ts) \<Rightarrow> size_list size ts | Inr (f, t) \<Rightarrow> size t]", goal_cases)
  case 1
  then show ?case by simp
next
  case (2 fpow tokens)
  then obtain t where "tokens = [t]" by (cases tokens) auto
  then show ?case by auto
next
  case (3 fpow tokens ts)
  have k: "sum_list (map leaves ts) = sum_list (map leaves tokens)" "2 \<le> length tokens \<longrightarrow> 2 \<le> length ts"
    using pemdas_keeps[of tokens ts] 3 by auto
  have "tokens \<noteq> []"
  proof
    assume "tokens = []"
    then have "pemdas tokens = Inr []"
      by (simp add: pemdas_def consolidate_def ebind_def consolidate_from.simps)
    then show False using 3 by simp
  qed
  then have "length tokens \<noteq> 0" by simp
  moreover have "length tokens \<noteq> 1" using 3 by simp
  ultimately have "2 \<le> length tokens" by linarith
  then have "2 \<le> length ts" using k(2) by simp
  then have "leaves (ts ! 0) < sum_list (map leaves ts)" by (intro leaves_nth_less) auto
  then show ?case using 3 k by simp
next
  case (4 fpow tokens ts a)
  have k: "sum_list (map leaves ts) = sum_list (map leaves tokens)"
    using pemdas_keeps[of tokens ts] 4 by auto
  have "2 < length ts" using 4 by simp
  then have "leaves (ts ! 2) < sum_list (map leaves ts)" by (intro leaves_nth_less) auto
  then show ?case using 4 k by simp
next
  case (5 fpow e)
  have "sum_list (map leaves e) < leaves (TExpression e)
      \<or> (sum_list (map leaves e) = leaves (TExpression e) \<and> size_list size e < size (TExpression e))"
    by (cases "sum_list (map leaves e)") simp_all
  then show ?case by simp
qed

declare calculate.simps(1) [simp del]

section \<open>Expression.py: the parser\<close>

fun find_matching_from :: "string \<Rightarrow> nat \<Rightarrow> nat \<Rightarrow> error + nat" where
  "find_matching_from [] j level = Inl (ValueError ''Couldn't find a matching parens!'')"
| "find_matching_from (c # cs) j level =
     (if c = CHR ''('' then find_matching_from cs (j + 1) (level + 1)
      else if c = CHR '')'' then
        (if level = 0 then Inr j else find_matching_from cs (j + 1) (level - 1))
      else find_matching_from cs (j + 1) level)"

definition find_matching_parens :: "string \<Rightarrow> nat \<Rightarrow> error + nat" where
  "find_matching_parens s i = find_matching_from (drop (i + 1) s) (i + 1) 0"

definition Operation_parse :: "char \<Rightarrow> operation option" where
  "Operation_parse x =
     (if x = CHR ''+'' then Some ADD
      else if x = CHR ''-'' then Some SUBTRACT
      else if x = CHR ''*'' then Some MULTIPLY
      else if x = CHR ''/'' then Some DIVIDE
      else if x = CHR ''^'' then Some EXPONENT
      else None)"

definition remove_spaces :: "string \<Rightarrow> string" where
  "remove_spaces s = filter (\<lambda>c. c \<noteq> CHR '' '') s"

definition flush :: "expression \<Rightarrow> bool \<Rightarrow> string \<Rightarrow> error + expression" where
  \<comment> \<open>the pending literal, if any, becomes a value token\<close>
  "flush tokens building_digit working_digit =
     (if building_digit then
        ebind (Rational_parse working_digit) (\<lambda>x. Inr (tokens @ [TRational x]))
      else Inr tokens)"

lemma find_matching_from_bounds:
  "find_matching_from cs j level = Inr p \<Longrightarrow> j \<le> p \<and> p < j + length cs"
proof (induction cs j level rule: find_matching_from.induct)
  case (1 j level)
  then show ?case by simp
next
  case (2 c cs j level)
  then show ?case by (fastforce split: if_splits)
qed

lemma find_matching_parens_bounds:
  assumes "find_matching_parens s i = Inr p"
  shows "i < p \<and> p < length s"
  using find_matching_from_bounds[OF assms[unfolded find_matching_parens_def]] by auto

lemma remove_spaces_sub_length:
  assumes "i < length s"
  shows "length (remove_spaces (take (p - Suc i) (drop (Suc i) s))) < length s"
proof -
  have "length (remove_spaces (take (p - Suc i) (drop (Suc i) s))) \<le> length (take (p - Suc i) (drop (Suc i) s))"
    unfolding remove_spaces_def by (rule length_filter_le)
  also have "\<dots> < length s" using assms by auto
  finally show ?thesis .
qed

text \<open>
  The scanning loop of \<^verbatim>\<open>Expression.parse\<close> over the string without its spaces,
  with the loop's variables as arguments. The characters with an operation are the five
  of the source's list, so the membership test and \<^verbatim>\<open>Operation.parse\<close> are one
  case distinction. The text between matching parentheses is parsed by a recursive call
  of \<^verbatim>\<open>Expression.parse\<close>, which removes spaces again. The input is a string of
  8-bit characters; of these, \<^verbatim>\<open>int(x)\<close> in \<^verbatim>\<open>is_digit\<close> accepts exactly the
  ten ASCII digits.
\<close>

function parse_from :: "string \<Rightarrow> nat \<Rightarrow> expression \<Rightarrow> bool \<Rightarrow> string \<Rightarrow> error + expression" where
  "parse_from s i tokens building_digit working_digit =
     (if i < length s then
        (if is_digit (s ! i) \<or> s ! i = CHR ''.'' then
           parse_from s (i + 1) tokens True (working_digit @ [s ! i])
         else
           (case flush tokens building_digit working_digit of
              Inl err \<Rightarrow> Inl err
            | Inr tokens1 \<Rightarrow>
                (case Operation_parse (s ! i) of
                   Some opn \<Rightarrow>
                     parse_from s (i + 1) (tokens1 @ [TOperation opn]) False
                       (if building_digit then [] else working_digit)
                 | None \<Rightarrow>
                     if s ! i = CHR ''('' then
                       (case find_matching_parens s i of
                          Inl err \<Rightarrow> Inl err
                        | Inr parens_location \<Rightarrow>
                            (case parse_from
                                    (remove_spaces (take (parens_location - (i + 1)) (drop (i + 1) s)))
                                    0 [] False [] of
                               Inl err \<Rightarrow> Inl err
                             | Inr subex \<Rightarrow>
                                 parse_from s (parens_location + 1)
                                   ((if tokens1 \<noteq> [] \<and> is_value (last tokens1)
                                     then tokens1 @ [TOperation MULTIPLY] else tokens1)
                                    @ [TExpression subex])
                                   False (if building_digit then [] else working_digit)))
                     else Inl (ValueError ''Couldn't parse an invalid Expression!''))))
      else flush tokens building_digit working_digit)"
  by pat_completeness auto
termination
  by (relation "measures [\<lambda>(s, i, ts, b, w). length s, \<lambda>(s, i, ts, b, w). length s - i]")
     (auto simp: remove_spaces_sub_length dest: find_matching_parens_bounds)

declare parse_from.simps [simp del]

definition Expression_parse :: "string \<Rightarrow> error + expression" where
  "Expression_parse s = parse_from (remove_spaces s) 0 [] False []"

text \<open>
  An instance of the parameter \<open>fpow\<close>, for running examples: the correctly rounded
  power for an exponent that is a whole number, with Python's exceptions for a result
  out of range and for a zero base with a negative exponent. Other exponents, which no
  example uses, get the marker \<open>FloatNotFinite\<close>.
\<close>

definition pow_integral :: "rat \<Rightarrow> rat \<Rightarrow> error + rat" where
  "pow_integral x y =
     (if of_int \<lfloor>y\<rfloor> \<noteq> y then Inl FloatNotFinite
      else if x = 0 \<and> y < 0 then Inl (ZeroDivisionError [])
      else (case round_binary64 (power_int x \<lfloor>y\<rfloor>) of
              None \<Rightarrow> Inl OverflowError
            | Some z \<Rightarrow> Inr z))"

text \<open>The number a Rational denotes.\<close>

definition rat_value :: "rational \<Rightarrow> rat" where
  "rat_value r = py_value (numer r) / py_value (denom r)"

text \<open>A Rational as the data model describes it: two integers, the denominator not zero.\<close>

definition is_int :: "pynum \<Rightarrow> bool" where
  "is_int a = (case a of PInt i \<Rightarrow> True | PFloat x \<Rightarrow> False)"

definition int_fields :: "rational \<Rightarrow> bool" where
  "int_fields r = (is_int (numer r) \<and> is_int (denom r) \<and> \<not> py_eq (denom r) (PInt 0))"

section \<open>Properties of the number model\<close>

text \<open>Integers of magnitude up to \<open>2 ^ 53\<close> are floats: rounding leaves them unchanged.\<close>

lemma bit_length_bounds:
  "0 < n \<Longrightarrow> 2 ^ (bit_length n - 1) \<le> n \<and> n < 2 ^ bit_length n"
proof (induction n rule: bit_length.induct)
  case (1 n)
  show ?case
  proof (cases "n div 2 = 0")
    case True
    then have "n = 1" using "1.prems" by presburger
    then show ?thesis by (simp add: bit_length.simps)
  next
    case False
    then have ih: "2 ^ (bit_length (n div 2) - 1) \<le> n div 2" "n div 2 < 2 ^ bit_length (n div 2)"
      using "1.IH" "1.prems" by auto
    have pos: "0 < bit_length (n div 2)" using False by (subst bit_length.simps) simp
    have bl: "bit_length n = Suc (bit_length (n div 2))" using "1.prems" by (subst bit_length.simps) simp
    have "2 ^ (bit_length n - 1) = 2 * 2 ^ (bit_length (n div 2) - 1)"
      using pos bl by (cases "bit_length (n div 2)") auto
    also have "\<dots> \<le> 2 * (n div 2)" using ih(1) by simp
    also have "\<dots> \<le> n" by simp
    finally have lo: "2 ^ (bit_length n - 1) \<le> n" .
    have "n < 2 * (n div 2) + 2" by presburger
    also have "\<dots> \<le> 2 * 2 ^ bit_length (n div 2)" using ih(2) by simp
    finally have "n < 2 ^ bit_length n" using bl by simp
    with lo show ?thesis by simp
  qed
qed

lemma bit_length_pos: "0 < n \<Longrightarrow> 0 < bit_length n"
  by (subst bit_length.simps) simp

lemma round_half_even_of_int: "round_half_even (of_int m) = m"
  by (simp add: round_half_even_def)

lemma round_binary64_pos_int:
  assumes "0 < i" "i \<le> 2 ^ 53"
  shows "round_binary64 (of_int i) = Some (of_int i)"
proof -
  define n where "n = nat i"
  define b where "b = bit_length n"
  have n: "0 < n" "int n = i" using assms by (simp_all add: n_def)
  have bb: "2 ^ (b - 1) \<le> n" "n < 2 ^ b" "0 < b"
    using bit_length_bounds[OF n(1)] bit_length_pos[OF n(1)] by (simp_all add: b_def)
  have ri: "(1::rat) \<le> of_int i" using assms by simp
  have ar: "\<bar>of_int i :: rat\<bar> = of_int i" using assms by simp
  have e: "binade (of_int i) = int b - 1"
    using ri assms by (simp add: binade_def b_def n_def)
  have "(2::nat) ^ (b - 1) \<le> 2 ^ 53"
  proof -
    have "int (2 ^ (b - 1)) \<le> int n" using bb(1) by linarith
    then have "(2::int) ^ (b - 1) \<le> 2 ^ 53" using n(2) assms(2) by simp
    then show ?thesis by (metis numeral_power_le_of_nat_cancel_iff of_nat_le_iff of_nat_numeral of_nat_power) 
  qed
  then have b54: "b - 1 \<le> 53" by (rule power_le_imp_le_exp[rotated]) simp
  show ?thesis
  proof (cases "b - 1 \<le> 52")
    case True
    define k where "k = 52 - (b - 1)"
    have kk: "int b - 1 - 52 = - int k" using True bb(3) by (simp add: k_def)
    have mx: "max (int b - 1) (- 1022) - 52 = - int k" using kk bb(3) by linarith
    have q: "power_int (2::rat) (max (int b - 1) (- 1022) - 52) = 1 / 2 ^ k"
      unfolding mx by (simp add: power_int_minus_divide)
    have m: "(of_int i :: rat) / (1 / 2 ^ k) = of_int (i * 2 ^ k)" using assms by simp
    have "round_half_even ((of_int i :: rat) / (1 / 2 ^ k)) = i * 2 ^ k"
      unfolding m by (rule round_half_even_of_int)
    moreover have small: "int b - 1 \<le> 52" using True bb(3) by linarith
    then have "\<not> (1024 \<le> int b - 1 \<or> (int b - 1 = 1023 \<and> i * 2 ^ k = 2 ^ 53))"
      by linarith
    ultimately show ?thesis
      unfolding round_binary64_def Let_def ar e q using assms by simp
  next
    case False
    then have b: "b - 1 = 53" using b54 by simp
    then have "2 ^ 53 \<le> n" using bb(1) by simp
    then have i: "i = 2 ^ 53" using n(2) assms(2) by simp
    have bi: "int b - 1 = 53" using b bb(3) by simp
    have q: "power_int (2::rat) (max (int b - 1) (- 1022) - 52) = 2"
      by (simp add: bi)
    have m: "(of_int i :: rat) / 2 = of_int (2 ^ 52)" by (simp add: i)
    have "round_half_even ((of_int i :: rat) / 2) = 2 ^ 52"
      unfolding m by (rule round_half_even_of_int)
    then show ?thesis
      unfolding round_binary64_def Let_def ar e q using assms bi i by simp
  qed
qed


lemma round_binary64_neg: "round_binary64 (- r) = map_option uminus (round_binary64 r)"
proof (cases "r = 0")
  case True
  then show ?thesis by (simp add: round_binary64_def)
next
  case False
  define e where "e = binade \<bar>r\<bar>"
  define k where "k = round_half_even (\<bar>r\<bar> / power_int 2 (max e (- 1022) - 52))"
  show ?thesis
    using False unfolding round_binary64_def Let_def abs_minus_cancel e_def[symmetric] k_def[symmetric]
    by (cases "1024 \<le> e \<or> e = 1023 \<and> k = 2 ^ 53") (simp_all del: power_numeral add: sgn_minus)
qed

lemma round_binary64_of_int:
  assumes "\<bar>i\<bar> \<le> 2 ^ 53"
  shows "round_binary64 (of_int i) = Some (of_int i)"
proof -
  consider "i = 0" | "0 < i" | "i < 0" by linarith
  then show ?thesis
  proof cases
    case 1 then show ?thesis by (simp add: round_binary64_def)
  next
    case 2 then show ?thesis using assms by (intro round_binary64_pos_int) simp_all
  next
    case 3
    then have "round_binary64 (of_int (- i)) = Some (of_int (- i))"
      using assms by (intro round_binary64_pos_int) simp_all
    then show ?thesis using round_binary64_neg[of "of_int i"] by (cases "round_binary64 (of_int i)") simp_all
  qed
qed

lemma round_binary64_numeral [simp]:
  "numeral w \<le> (2::int) ^ 53 \<Longrightarrow> round_binary64 (numeral w) = Some (numeral w)"
  using round_binary64_of_int[of "numeral w"] by simp

lemma round_binary64_neg_numeral [simp]:
  "numeral w \<le> (2::int) ^ 53 \<Longrightarrow> round_binary64 (- numeral w) = Some (- numeral w)"
  using round_binary64_of_int[of "- numeral w"] by simp

lemma round_binary64_0 [simp]: "round_binary64 0 = Some 0"
  by (simp add: round_binary64_def)

lemma round_binary64_1 [simp]: "round_binary64 1 = Some 1"
  using round_binary64_of_int[of 1] by simp


lemma bit_length_eq:
  assumes "2 ^ k \<le> n" "n < 2 ^ (k + 1)"
  shows "bit_length n = k + 1"
proof -
  have n: "0 < n" using assms(1) by (metis gr0I not_less_eq_eq not_one_le_zero one_le_numeral one_le_power le_zero_eq)
  define b where "b = bit_length n"
  have bb: "2 ^ (b - 1) \<le> n" "n < 2 ^ b" "0 < b"
    using bit_length_bounds[OF n] bit_length_pos[OF n] by (simp_all add: b_def)
  have "(2::nat) ^ (b - 1) < 2 ^ (k + 1)" using bb(1) assms(2) by linarith
  then have "b - 1 < k + 1" using power_less_imp_less_exp[of 2 "b - 1" "k + 1"] by simp
  moreover have "(2::nat) ^ k < 2 ^ b" using bb(2) assms(1) by linarith
  then have "k < b" using power_less_imp_less_exp[of 2 k b] by simp
  ultimately show ?thesis using bb(3) by (simp add: b_def)
qed

lemma round_binary64_tie_example: "round_binary64 9007199254740993 = Some 9007199254740992"
proof -
  have bl: "bit_length 9007199254740993 = 53 + 1"
    by (rule bit_length_eq) simp_all
  have e: "binade 9007199254740993 = 53"
    by (simp add: binade_def bl)
  have fl: "\<lfloor>9007199254740993 / 2 :: rat\<rfloor> = 4503599627370496"
    by (rule floor_unique) simp_all
  show ?thesis
    by (simp add: round_binary64_def e round_half_even_def Let_def fl)
qed

lemma round_binary64_half: "round_binary64 (1 / 2) = Some (1 / 2)"
proof -
  have bl: "bit_length (Suc 0) = Suc 0" by (simp add: bit_length.simps)
  have e: "binade (1 / 2) = - 1"
    by (simp add: binade_def bl)
  show ?thesis
    by (simp add: round_binary64_def e round_half_even_def Let_def)
qed

lemma round_half_even_ge_floor: "\<lfloor>m\<rfloor> \<le> round_half_even m"
  by (simp add: round_half_even_def Let_def)

lemma binade_lower:
  assumes "1 \<le> r"
  shows "0 \<le> binade r \<and> 2 ^ nat (binade r) \<le> r"
proof -
  define n where "n = nat \<lfloor>r\<rfloor>"
  have n: "0 < n" using assms by (simp add: n_def)
  have bb: "2 ^ (bit_length n - 1) \<le> n" "0 < bit_length n"
    using bit_length_bounds[OF n] bit_length_pos[OF n] by simp_all
  have e: "binade r = int (bit_length n) - 1" using assms by (simp add: binade_def n_def)
  have ne: "nat (binade r) = bit_length n - 1" using e bb(2) by simp
  have "(of_nat n :: rat) \<le> r" using assms by (simp add: n_def)
  moreover have "(2::rat) ^ (bit_length n - 1) \<le> of_nat n" using bb(1)
    by (metis of_nat_numeral of_nat_power of_nat_le_iff)
  ultimately have "(2::rat) ^ (bit_length n - 1) \<le> r" by (rule order_trans[rotated])
  then have "(2::rat) ^ nat (binade r) \<le> r" unfolding ne .
  moreover have "0 \<le> binade r" using e bb(2) by linarith
  ultimately show ?thesis by blast
qed


lemma round_binary64_ge_one:
  assumes "1 \<le> r" "round_binary64 r = Some f"
  shows "1 \<le> f"
proof -
  define e where "e = binade r"
  define q where "q = power_int (2::rat) (e - 52)"
  define k where "k = round_half_even (r / q)"
  have ar: "\<bar>r\<bar> = r" "r \<noteq> 0" "sgn r = 1" using assms(1) by simp_all
  have e0: "0 \<le> e" and lo: "2 ^ nat e \<le> r" using binade_lower[OF assms(1)] by (simp_all add: e_def)
  have mx: "max e (- 1022) = e" using e0 by simp
  have f: "f = of_int k * q"
    using assms(2) unfolding round_binary64_def Let_def ar e_def[symmetric] mx q_def[symmetric] k_def[symmetric]
    by (simp add: ar split: if_splits)
  have qpos: "0 < q" by (simp add: q_def)
  have pe: "power_int (2::rat) e = 2 ^ nat e" using e0 by (simp add: power_int_def)
  have qe: "q * 2 ^ 52 = 2 ^ nat e"
  proof -
    have "q * 2 ^ 52 = power_int (2::rat) (e - 52) * power_int 2 52" by (simp add: q_def)
    also have "\<dots> = power_int 2 (e - 52 + 52)" by (subst power_int_add) simp_all
    finally show ?thesis using pe by simp
  qed
  have "(2::rat) ^ 52 \<le> r / q"
  proof -
    have "2 ^ 52 * q \<le> r" using qe lo by (simp add: mult.commute)
    then show ?thesis using qpos by (simp add: pos_le_divide_eq)
  qed
  then have "(of_int (2 ^ 52) :: rat) \<le> r / q" by simp
  then have "2 ^ 52 \<le> \<lfloor>r / q\<rfloor>" by (simp only: le_floor_iff)
  then have k52: "2 ^ 52 \<le> k" using round_half_even_ge_floor[of "r / q"] unfolding k_def by linarith
  have "(2::rat) ^ 52 * q \<le> of_int k * q"
  proof (rule mult_right_mono)
    have "(of_int (2 ^ 52) :: rat) \<le> of_int k" using k52 by (simp only: of_int_le_iff)
    then show "(2::rat) ^ 52 \<le> of_int k" by simp
    show "0 \<le> q" using qpos by simp
  qed
  then have "2 ^ nat e \<le> f" using qe f by (simp add: mult.commute)
  moreover have "(1::rat) \<le> 2 ^ nat e" by simp
  ultimately show ?thesis by linarith
qed

lemma round_binary64_le_minus_one:
  assumes "r \<le> - 1" "round_binary64 r = Some f"
  shows "f \<le> - 1"
proof -
  have "round_binary64 (- r) = Some (- f)" using round_binary64_neg[of r] assms(2) by simp
  moreover have "1 \<le> - r" using assms(1) by simp
  ultimately have "1 \<le> - f" by (rule round_binary64_ge_one[rotated])
  then show ?thesis by simp
qed

lemma py_truediv_exact:
  assumes "0 < g" "g dvd m"
  shows "py_truediv (PInt m) (PInt g) = Inl OverflowError
       \<or> (\<exists>x. py_truediv (PInt m) (PInt g) = Inr (PFloat x) \<and> sgn (py_int (PFloat x)) = sgn m)"
proof -
  obtain c where c: "m = g * c" using assms(2) by (auto simp: dvd_def)
  have q: "(of_int m :: rat) / of_int g = of_int c" using assms(1) c by simp
  show ?thesis
  proof (cases "round_binary64 (of_int c)")
    case None
    then show ?thesis using assms(1) by (simp add: py_truediv_def q)
  next
    case (Some x)
    have td: "py_truediv (PInt m) (PInt g) = Inr (PFloat x)"
      using assms(1) Some by (simp add: py_truediv_def q)
    have sm: "sgn m = sgn c" using assms(1) c by (simp add: sgn_mult)
    consider "c = 0" | "1 \<le> c" | "c \<le> - 1" by linarith
    then have "sgn (py_int (PFloat x)) = sgn c"
    proof cases
      case 1
      then have "x = 0" using Some by simp
      then show ?thesis using 1 by (simp add: py_int_def)
    next
      case 2
      then have "(1::rat) \<le> of_int c" by simp
      then have "1 \<le> x" using Some by (rule round_binary64_ge_one)
      then have "1 \<le> \<lfloor>x\<rfloor>" by simp
      then show ?thesis using 2 \<open>1 \<le> x\<close> by (simp add: py_int_def)
    next
      case 3
      then have "(of_int c :: rat) \<le> - 1" by (metis of_int_le_iff of_int_minus of_int_1)
      then have x: "x \<le> - 1" using Some by (rule round_binary64_le_minus_one)
      then have "\<lceil>x\<rceil> \<le> - 1" by (simp add: ceiling_le_iff)
      then show ?thesis using 3 x by (simp add: py_int_def)
    qed
    then show ?thesis using td sm by simp
  qed
qed

lemma py_int_PInt [simp]: "py_int (PInt i) = i"
  by (simp add: py_int_def)

lemma simplify_ints:
  assumes "d \<noteq> 0"
  shows "simplify \<lparr>numer = PInt n, denom = PInt d\<rparr> = Inl OverflowError
       \<or> (\<exists>n' d'. simplify \<lparr>numer = PInt n, denom = PInt d\<rparr> = Inr \<lparr>numer = PInt n', denom = PInt d'\<rparr>
              \<and> sgn n' = sgn n \<and> sgn d' = sgn d)"
proof -
  define g where "g = gcd n d"
  have g: "0 < g" "g dvd n" "g dvd d" using assms by (simp_all add: g_def)
  have s: "simplify \<lparr>numer = PInt n, denom = PInt d\<rparr> =
      ebind (py_truediv (PInt n) (PInt g)) (\<lambda>a.
      ebind (py_truediv (PInt d) (PInt g)) (\<lambda>b.
        Inr \<lparr>numer = PInt (py_int a), denom = PInt (py_int b)\<rparr>))"
    by (simp add: simplify_def g_def Let_def)
  from py_truediv_exact[OF g(1) g(2)] py_truediv_exact[OF g(1) g(3)]
  show ?thesis unfolding s by (auto simp: ebind_def)
qed

lemmas py_defs = py_eq_def py_value_def py_int_def py_mul_def py_add_def py_sub_def py_truediv_def
  py_float_def float_result_def ebind_def

lemmas rat_defs = Rational_def simplify_def scale_def reciprocal_def match_denominators_def
  multiply_def divide_def add_def subtract_def as_float_def

lemmas parse_defs = Expression_parse_def remove_spaces_def parse_from.simps is_digit_def flush_def
  Rational_parse_def decimal_integer_ratio_def digits_value_def digit_value_def Operation_parse_def
  find_matching_parens_def

lemmas calc_defs = calculate.simps(1) pemdas_def consolidate_def consolidate_from.simps is_valid_def
  is_value_def op_def

section \<open>Properties of Rational.py\<close>

text \<open>
  C7. For every Rational whose denominator is not zero, \<^verbatim>\<open>Rational.reciprocal\<close>
  raises ZeroDivisionError exactly when the numerator is zero, and otherwise returns the
  Rational with numerator and denominator exchanged (not simplified). The guard of
  \<open>reciprocal\<close> itself tests the denominator; the error for a zero numerator comes
  from the constructor, which receives the numerator as the new denominator.
\<close>

theorem reciprocal_fails_iff_numer_zero:
  assumes "\<not> py_eq (denom x) (PInt 0)"
  shows "((\<exists>msg. reciprocal x = Inl (ZeroDivisionError msg)) \<longleftrightarrow> py_eq (numer x) (PInt 0))
       \<and> (\<not> py_eq (numer x) (PInt 0) \<longrightarrow>
            reciprocal x = Inr \<lparr>numer = denom x, denom = numer x\<rparr>)"
  using assms by (simp add: reciprocal_def Rational_def)

theorem reciprocal_fails_iff_numer_zero_witness:
  "reciprocal \<lparr>numer = PInt 3, denom = PInt 4\<rparr> = Inr \<lparr>numer = PInt 4, denom = PInt 3\<rparr>
   \<and> (\<exists>msg. reciprocal \<lparr>numer = PInt 0, denom = PInt 4\<rparr> = Inl (ZeroDivisionError msg))"
proof -
  have a: "\<not> py_eq (denom \<lparr>numer = PInt 3, denom = PInt 4\<rparr>) (PInt 0)"
    by (simp add: py_eq_def py_value_def)
  have b: "\<not> py_eq (denom \<lparr>numer = PInt 0, denom = PInt 4\<rparr>) (PInt 0)"
    by (simp add: py_eq_def py_value_def)
  show ?thesis
    using reciprocal_fails_iff_numer_zero [OF a] reciprocal_fails_iff_numer_zero [OF b]
    by (simp add: py_eq_def py_value_def)
qed

text \<open>
  C6 (evaluated where the claim fails). \<^verbatim>\<open>simplify\<close> divides with the true division
  \<^verbatim>\<open>/\<close> and converts the float back with \<^verbatim>\<open>int\<close>. For the operand
  \<open>9007199254740993 = 2 ^ 53 + 1\<close> the float nearest to the quotient by the gcd 1 is
  \<open>2 ^ 53\<close>: after \<^verbatim>\<open>add\<close> (and after \<^verbatim>\<open>subtract\<close>) returns, the operand
  denotes a different number than before the call.
\<close>

theorem add_rounds_large_operand:
  "add \<lparr>numer = PInt 9007199254740993, denom = PInt 1\<rparr> \<lparr>numer = PInt 1, denom = PInt 1\<rparr> True
     = Inr (\<lparr>numer = PInt 9007199254740994, denom = PInt 1\<rparr>,
            \<lparr>numer = PInt 9007199254740992, denom = PInt 1\<rparr>,
            \<lparr>numer = PInt 1, denom = PInt 1\<rparr>)
   \<and> subtract \<lparr>numer = PInt 9007199254740993, denom = PInt 1\<rparr> \<lparr>numer = PInt 1, denom = PInt 1\<rparr> True
     = Inr (\<lparr>numer = PInt 9007199254740992, denom = PInt 1\<rparr>,
            \<lparr>numer = PInt 9007199254740992, denom = PInt 1\<rparr>,
            \<lparr>numer = PInt 1, denom = PInt 1\<rparr>)"
  by (simp add: py_defs rat_defs round_binary64_tie_example)

text \<open>
  Away from that defect the two operations leave their operands as documented: for operands whose
  fields are integers of magnitude up to \<open>2 ^ 26\<close>, every quotient is exact, the
  result denotes the sum (the difference), and both operands come back in lowest terms,
  denoting what they denoted.
\<close>

lemma abs_div_le:
  fixes n g :: int
  assumes "0 < g" "g dvd n"
  shows "\<bar>n div g\<bar> \<le> \<bar>n\<bar>"
proof -
  obtain c where c: "n = g * c" using assms(2) by (auto simp: dvd_def)
  have "\<bar>c\<bar> * 1 \<le> \<bar>c\<bar> * \<bar>g\<bar>" using assms(1) by (intro mult_left_mono) simp_all
  then show ?thesis using c assms(1) by (simp add: abs_mult mult.commute)
qed

lemma py_truediv_small:
  assumes "0 < g" "g dvd n" "\<bar>n\<bar> \<le> 2 ^ 53"
  shows "py_truediv (PInt n) (PInt g) = Inr (PFloat (of_int (n div g)))"
proof -
  have q: "(of_int n :: rat) / of_int g = of_int (n div g)" using assms(2) by (simp add: of_int_div)
  have "\<bar>n div g\<bar> \<le> 2 ^ 53" using abs_div_le[OF assms(1,2)] assms(3) by linarith
  then have "round_binary64 (of_int (n div g)) = Some (of_int (n div g))"
    by (rule round_binary64_of_int)
  then show ?thesis using assms(1) by (simp add: py_truediv_def q)
qed

lemma py_int_of_int [simp]: "py_int (PFloat (of_int m)) = m"
  by (simp add: py_int_def)

lemma simplify_exact_small:
  assumes "d \<noteq> 0" "\<bar>n\<bar> \<le> 2 ^ 53" "\<bar>d\<bar> \<le> 2 ^ 53"
  shows "simplify \<lparr>numer = PInt n, denom = PInt d\<rparr>
       = Inr \<lparr>numer = PInt (n div gcd n d), denom = PInt (d div gcd n d)\<rparr>"
proof -
  have g: "0 < gcd n d" using assms(1) by simp
  show ?thesis
    using py_truediv_small[OF g _ assms(2)] py_truediv_small[OF g _ assms(3)]
    by (simp add: simplify_def Let_def ebind_def)
qed

lemma simplified_value:
  assumes "d \<noteq> 0"
  shows "rat_value \<lparr>numer = PInt (n div gcd n d), denom = PInt (d div gcd n d)\<rparr>
       = of_int n / of_int d"
    and "coprime (n div gcd n d) (d div gcd n d)"
proof -
  have g: "gcd n d \<noteq> 0" using assms by simp
  have "(of_int (n div gcd n d) :: rat) / of_int (d div gcd n d)
      = (of_int n / of_int (gcd n d)) / (of_int d / of_int (gcd n d))"
    by (simp add: of_int_div)
  also have "\<dots> = of_int n / of_int d" using g by simp
  finally show "rat_value \<lparr>numer = PInt (n div gcd n d), denom = PInt (d div gcd n d)\<rparr>
       = of_int n / of_int d" by (simp add: rat_value_def py_value_def)
  show "coprime (n div gcd n d) (d div gcd n d)" using assms by (intro div_gcd_coprime) simp
qed


lemma simplify_small:
  assumes "d \<noteq> 0" "\<bar>n\<bar> \<le> 2 ^ 53" "\<bar>d\<bar> \<le> 2 ^ 53"
  shows "\<exists>n' d'. simplify \<lparr>numer = PInt n, denom = PInt d\<rparr> = Inr \<lparr>numer = PInt n', denom = PInt d'\<rparr>
           \<and> coprime n' d'
           \<and> rat_value \<lparr>numer = PInt n', denom = PInt d'\<rparr> = of_int n / of_int d"
  using simplify_exact_small[OF assms] simplified_value[OF assms(1), of n] by blast

lemma Rational_small:
  assumes "d \<noteq> 0" "\<bar>n\<bar> \<le> 2 ^ 53" "\<bar>d\<bar> \<le> 2 ^ 53"
  shows "\<exists>r. Rational (PInt n) (PInt d) True = Inr r \<and> rat_value r = of_int n / of_int d"
proof (cases "d = 1")
  case True
  then show ?thesis by (simp add: Rational_def py_eq_def py_value_def rat_value_def)
next
  case False
  then have "Rational (PInt n) (PInt d) True = simplify \<lparr>numer = PInt n, denom = PInt d\<rparr>"
    using assms(1) by (simp add: Rational_def py_eq_def py_value_def)
  then show ?thesis using simplify_small[OF assms] by auto
qed

lemma abs_mult_small:
  fixes x y :: int
  assumes "\<bar>x\<bar> \<le> 2 ^ 26" "\<bar>y\<bar> \<le> 2 ^ 26"
  shows "\<bar>x * y\<bar> \<le> 2 ^ 52"
proof -
  have "\<bar>x\<bar> * \<bar>y\<bar> \<le> 2 ^ 26 * 2 ^ 26" using assms by (intro mult_mono) simp_all
  then show ?thesis by (simp add: abs_mult)
qed

lemma add_subtract_exact_small:
  assumes "da \<noteq> 0" "db \<noteq> 0"
    and "\<bar>na\<bar> \<le> 2 ^ 26" "\<bar>da\<bar> \<le> 2 ^ 26" "\<bar>nb\<bar> \<le> 2 ^ 26" "\<bar>db\<bar> \<le> 2 ^ 26"
  defines "a \<equiv> \<lparr>numer = PInt na, denom = PInt da\<rparr>" and "b \<equiv> \<lparr>numer = PInt nb, denom = PInt db\<rparr>"
  shows "\<exists>r a' b'. add a b True = Inr (r, a', b') \<and> rat_value r = rat_value a + rat_value b
           \<and> rat_value a' = rat_value a \<and> rat_value b' = rat_value b
           \<and> (\<exists>n d. a' = \<lparr>numer = PInt n, denom = PInt d\<rparr> \<and> coprime n d)
           \<and> (\<exists>n d. b' = \<lparr>numer = PInt n, denom = PInt d\<rparr> \<and> coprime n d)"
    and "\<exists>r a' b'. subtract a b True = Inr (r, a', b') \<and> rat_value r = rat_value a - rat_value b
           \<and> rat_value a' = rat_value a \<and> rat_value b' = rat_value b
           \<and> (\<exists>n d. a' = \<lparr>numer = PInt n, denom = PInt d\<rparr> \<and> coprime n d)
           \<and> (\<exists>n d. b' = \<lparr>numer = PInt n, denom = PInt d\<rparr> \<and> coprime n d)"
proof -
  have va: "rat_value a = of_int na / of_int da" and vb: "rat_value b = of_int nb / of_int db"
    by (simp_all add: a_def b_def rat_value_def py_value_def)
  obtain n1 n2 d where m: "match_denominators a b
      = Inr (PInt d, \<lparr>numer = PInt n1, denom = PInt d\<rparr>, \<lparr>numer = PInt n2, denom = PInt d\<rparr>)"
    and d0: "d \<noteq> 0" and bd: "\<bar>n1\<bar> \<le> 2 ^ 52" "\<bar>n2\<bar> \<le> 2 ^ 52" "\<bar>d\<bar> \<le> 2 ^ 52"
    and v1: "(of_int n1 :: rat) / of_int d = of_int na / of_int da"
    and v2: "(of_int n2 :: rat) / of_int d = of_int nb / of_int db"
  proof (cases "da = db")
    case True
    have "match_denominators a b = Inr (PInt da, \<lparr>numer = PInt na, denom = PInt da\<rparr>, \<lparr>numer = PInt nb, denom = PInt da\<rparr>)"
      using True by (simp add: match_denominators_def a_def b_def py_eq_def py_value_def)
    moreover have "\<bar>na\<bar> \<le> 2 ^ 52" "\<bar>nb\<bar> \<le> 2 ^ 52" "\<bar>da\<bar> \<le> 2 ^ 52" using assms(3-6) by simp_all
    ultimately show ?thesis using that[of da na nb] assms(1) True by simp
  next
    case False
    have "match_denominators a b = Inr (PInt (da * db), \<lparr>numer = PInt (na * db), denom = PInt (da * db)\<rparr>,
        \<lparr>numer = PInt (nb * da), denom = PInt (da * db)\<rparr>)"
      using False assms(1,2)
      by (simp add: match_denominators_def a_def b_def scale_def py_eq_def py_value_def py_mul_def ebind_def mult.commute)
    moreover have "\<bar>na * db\<bar> \<le> 2 ^ 52" "\<bar>nb * da\<bar> \<le> 2 ^ 52" "\<bar>da * db\<bar> \<le> 2 ^ 52"
      using assms(3-6) by (simp_all only: abs_mult_small)
    moreover have "(of_int (na * db) :: rat) / of_int (da * db) = of_int na / of_int da"
      "(of_int (nb * da) :: rat) / of_int (da * db) = of_int nb / of_int db"
      using assms(1,2) by simp_all
    ultimately show ?thesis using that[of "da * db" "na * db" "nb * da"] assms(1,2) by simp
  qed
  have d53: "\<bar>d\<bar> \<le> 2 ^ 53" "\<bar>n1\<bar> \<le> 2 ^ 53" "\<bar>n2\<bar> \<le> 2 ^ 53"
    "\<bar>n1 + n2\<bar> \<le> 2 ^ 53" "\<bar>n1 - n2\<bar> \<le> 2 ^ 53"
    using bd by simp_all
  obtain a' where a': "simplify \<lparr>numer = PInt n1, denom = PInt d\<rparr> = Inr a'"
    "rat_value a' = rat_value a" "\<exists>n d. a' = \<lparr>numer = PInt n, denom = PInt d\<rparr> \<and> coprime n d"
    using simplify_small[OF d0 d53(2) d53(1)] v1 va by auto
  obtain b' where b': "simplify \<lparr>numer = PInt n2, denom = PInt d\<rparr> = Inr b'"
    "rat_value b' = rat_value b" "\<exists>n d. b' = \<lparr>numer = PInt n, denom = PInt d\<rparr> \<and> coprime n d"
    using simplify_small[OF d0 d53(3) d53(1)] v2 vb by auto
  obtain r where r: "Rational (PInt (n1 + n2)) (PInt d) True = Inr r"
    "rat_value r = of_int (n1 + n2) / of_int d"
    using Rational_small[OF d0 d53(4) d53(1)] by blast
  have "rat_value r = rat_value a + rat_value b"
    using r(2) v1 v2 va vb by (simp add: add_divide_distrib)
  moreover have "add a b True = Inr (r, a', b')"
    using r(1) a'(1) b'(1) by (simp add: add_def m ebind_def py_add_def)
  ultimately show "\<exists>r a' b'. add a b True = Inr (r, a', b') \<and> rat_value r = rat_value a + rat_value b
           \<and> rat_value a' = rat_value a \<and> rat_value b' = rat_value b
           \<and> (\<exists>n d. a' = \<lparr>numer = PInt n, denom = PInt d\<rparr> \<and> coprime n d)
           \<and> (\<exists>n d. b' = \<lparr>numer = PInt n, denom = PInt d\<rparr> \<and> coprime n d)"
    using a'(2,3) b'(2,3) by blast
  obtain s where s: "Rational (PInt (n1 - n2)) (PInt d) True = Inr s"
    "rat_value s = of_int (n1 - n2) / of_int d"
    using Rational_small[OF d0 d53(5) d53(1)] by blast
  have "rat_value s = rat_value a - rat_value b"
    using s(2) v1 v2 va vb by (simp add: diff_divide_distrib)
  moreover have "subtract a b True = Inr (s, a', b')"
    using s(1) a'(1) b'(1) by (simp add: subtract_def m ebind_def py_sub_def)
  ultimately show "\<exists>r a' b'. subtract a b True = Inr (r, a', b') \<and> rat_value r = rat_value a - rat_value b
           \<and> rat_value a' = rat_value a \<and> rat_value b' = rat_value b
           \<and> (\<exists>n d. a' = \<lparr>numer = PInt n, denom = PInt d\<rparr> \<and> coprime n d)
           \<and> (\<exists>n d. b' = \<lparr>numer = PInt n, denom = PInt d\<rparr> \<and> coprime n d)"
    using a'(2,3) b'(2,3) by blast
qed

text \<open>
  C8, as stated, fails: the gcd is never negative, so dividing by it keeps the sign of
  the denominator. The Rational \<open>1/(-2)\<close> is returned unchanged by
  \<^verbatim>\<open>simplify\<close> and by the constructor.
\<close>

theorem simplify_negative_denominator_counterexample:
  "simplify \<lparr>numer = PInt 1, denom = PInt (- 2)\<rparr> = Inr \<lparr>numer = PInt 1, denom = PInt (- 2)\<rparr>
   \<and> Rational (PInt 1) (PInt (- 2)) True = Inr \<lparr>numer = PInt 1, denom = PInt (- 2)\<rparr>"
  by (simp add: py_defs rat_defs)

text \<open>
  C8, amended. For every Rational with integer fields and a negative denominator,
  \<^verbatim>\<open>simplify\<close> (which is all the constructor does with it) either raises
  OverflowError, when a quotient is too large for a float, or returns integer fields of
  which the denominator is still negative and the numerator has the sign it had.
\<close>

theorem simplify_keeps_denominator_sign:
  assumes "d < 0"
  shows "(simplify \<lparr>numer = PInt n, denom = PInt d\<rparr> = Inl OverflowError
          \<or> (\<exists>n' d'. simplify \<lparr>numer = PInt n, denom = PInt d\<rparr> = Inr \<lparr>numer = PInt n', denom = PInt d'\<rparr>
                 \<and> d' < 0 \<and> sgn n' = sgn n))
       \<and> Rational (PInt n) (PInt d) True = simplify \<lparr>numer = PInt n, denom = PInt d\<rparr>"
proof
  have "d \<noteq> 0" using assms by simp
  from simplify_ints[OF this, of n]
  show "simplify \<lparr>numer = PInt n, denom = PInt d\<rparr> = Inl OverflowError
          \<or> (\<exists>n' d'. simplify \<lparr>numer = PInt n, denom = PInt d\<rparr> = Inr \<lparr>numer = PInt n', denom = PInt d'\<rparr>
                 \<and> d' < 0 \<and> sgn n' = sgn n)"
  proof
    assume "simplify \<lparr>numer = PInt n, denom = PInt d\<rparr> = Inl OverflowError"
    then show ?thesis by simp
  next
    assume "\<exists>n' d'. simplify \<lparr>numer = PInt n, denom = PInt d\<rparr> = Inr \<lparr>numer = PInt n', denom = PInt d'\<rparr>
              \<and> sgn n' = sgn n \<and> sgn d' = sgn d"
    then obtain n' d' where r: "simplify \<lparr>numer = PInt n, denom = PInt d\<rparr> = Inr \<lparr>numer = PInt n', denom = PInt d'\<rparr>"
      "sgn n' = sgn n" "sgn d' = sgn d" by blast
    have "d' < 0" using r(3) assms by (metis sgn_less)
    then show ?thesis using r by blast
  qed
  show "Rational (PInt n) (PInt d) True = simplify \<lparr>numer = PInt n, denom = PInt d\<rparr>"
    using assms by (simp add: Rational_def py_eq_def py_value_def)
qed

theorem simplify_keeps_denominator_sign_witness:
  "(- 4 :: int) < 0
   \<and> simplify \<lparr>numer = PInt 6, denom = PInt (- 4)\<rparr> = Inr \<lparr>numer = PInt 3, denom = PInt (- 2)\<rparr>
   \<and> (simplify \<lparr>numer = PInt 6, denom = PInt (- 4)\<rparr> = Inl OverflowError
      \<or> (\<exists>n' d'. simplify \<lparr>numer = PInt 6, denom = PInt (- 4)\<rparr> = Inr \<lparr>numer = PInt n', denom = PInt d'\<rparr>
             \<and> d' < 0 \<and> sgn n' = sgn (6::int)))"
proof -
  have h: "(- 4 :: int) < 0" by simp
  have g: "gcd (6::int) 4 = 2" by (simp add: gcd_non_0_int)
  have v: "simplify \<lparr>numer = PInt 6, denom = PInt (- 4)\<rparr> = Inr \<lparr>numer = PInt 3, denom = PInt (- 2)\<rparr>"
    by (simp add: simplify_def g py_defs Let_def)
  show ?thesis using h v simplify_keeps_denominator_sign [OF h, of 6] by blast
qed

lemma int_fieldsE:
  assumes "int_fields r"
  obtains n d where "r = \<lparr>numer = PInt n, denom = PInt d\<rparr>" "d \<noteq> 0"
proof -
  obtain a b where r: "r = \<lparr>numer = a, denom = b\<rparr>" by (cases r) auto
  from assms r obtain n d where "a = PInt n" "b = PInt d"
    by (cases a; cases b) (auto simp: int_fields_def is_int_def)
  moreover from this assms r have "d \<noteq> 0" by (simp add: int_fields_def py_eq_def py_value_def)
  ultimately show ?thesis using r that by blast
qed

lemma int_fields_ints [simp]: "int_fields \<lparr>numer = PInt n, denom = PInt d\<rparr> \<longleftrightarrow> d \<noteq> 0"
  by (simp add: int_fields_def is_int_def py_eq_def py_value_def)

lemma Rational_int_fields:
  assumes "Rational (PInt n) (PInt d) smp = Inr r"
  shows "int_fields r"
proof (cases "d = 0")
  case True
  then show ?thesis using assms by (simp add: Rational_def py_eq_def py_value_def)
next
  case False
  show ?thesis
  proof (cases "d \<noteq> 1 \<and> smp")
    case True
    then have s: "simplify \<lparr>numer = PInt n, denom = PInt d\<rparr> = Inr r"
      using assms False by (simp add: Rational_def py_eq_def py_value_def)
    from simplify_ints[OF False, of n] s obtain n' d' where
      "r = \<lparr>numer = PInt n', denom = PInt d'\<rparr>" "sgn d' = sgn d" by auto
    moreover have "d' \<noteq> 0" using calculation(2) False by (metis sgn_0_0)
    ultimately show ?thesis by simp
  next
    case no: False
    then have "r = \<lparr>numer = PInt n, denom = PInt d\<rparr>"
      using assms False by (auto simp: Rational_def py_eq_def py_value_def)
    then show ?thesis using False by simp
  qed
qed

lemma multiply_int_fields:
  assumes "int_fields a" "int_fields b" "multiply a b smp = Inr r"
  shows "int_fields r"
proof -
  obtain na da where a: "a = \<lparr>numer = PInt na, denom = PInt da\<rparr>" "da \<noteq> 0" using assms(1) by (rule int_fieldsE)
  obtain nb db where b: "b = \<lparr>numer = PInt nb, denom = PInt db\<rparr>" "db \<noteq> 0" using assms(2) by (rule int_fieldsE)
  have "Rational (PInt (na * nb)) (PInt (da * db)) smp = Inr r"
    using assms(3) by (simp add: multiply_def a b py_mul_def ebind_def)
  then show ?thesis by (rule Rational_int_fields)
qed

lemma divide_int_fields:
  assumes "int_fields a" "int_fields b" "divide a b smp = Inr r"
  shows "int_fields r"
proof -
  obtain nb db where b: "b = \<lparr>numer = PInt nb, denom = PInt db\<rparr>" "db \<noteq> 0" using assms(2) by (rule int_fieldsE)
  obtain rb where rb: "reciprocal b = Inr rb" "multiply a rb smp = Inr r"
    using assms(3) by (cases "reciprocal b") (auto simp: divide_def ebind_def)
  have "Rational (PInt db) (PInt nb) False = Inr rb" using rb(1) b by (simp add: reciprocal_def py_eq_def py_value_def)
  then have "int_fields rb" by (rule Rational_int_fields)
  then show ?thesis using assms(1) rb(2) multiply_int_fields by blast
qed

lemma match_denominators_ints:
  assumes "da \<noteq> 0" "db \<noteq> 0"
  shows "\<exists>n1 n2 d. d \<noteq> 0 \<and> match_denominators \<lparr>numer = PInt na, denom = PInt da\<rparr> \<lparr>numer = PInt nb, denom = PInt db\<rparr>
     = Inr (PInt d, \<lparr>numer = PInt n1, denom = PInt d\<rparr>, \<lparr>numer = PInt n2, denom = PInt d\<rparr>)"
  using assms by (auto simp: match_denominators_def scale_def py_eq_def py_value_def py_mul_def ebind_def mult.commute)

lemma add_int_fields:
  assumes "int_fields a" "int_fields b" "add a b smp = Inr (r, a', b')"
  shows "int_fields r"
proof -
  obtain na da where a: "a = \<lparr>numer = PInt na, denom = PInt da\<rparr>" "da \<noteq> 0" using assms(1) by (rule int_fieldsE)
  obtain nb db where b: "b = \<lparr>numer = PInt nb, denom = PInt db\<rparr>" "db \<noteq> 0" using assms(2) by (rule int_fieldsE)
  from match_denominators_ints[OF a(2) b(2), of na nb] obtain n1 n2 d where
    m: "d \<noteq> 0" "match_denominators a b = Inr (PInt d, \<lparr>numer = PInt n1, denom = PInt d\<rparr>, \<lparr>numer = PInt n2, denom = PInt d\<rparr>)"
    unfolding a b by blast
  obtain res where "Rational (PInt (n1 + n2)) (PInt d) smp = Inr res" "res = r"
    using assms(3) unfolding add_def m(2)
    by (cases "Rational (PInt (n1 + n2)) (PInt d) smp") (auto simp: ebind_def py_add_def split: sum.splits)
  then show ?thesis using Rational_int_fields by blast
qed

lemma subtract_int_fields:
  assumes "int_fields a" "int_fields b" "subtract a b smp = Inr (r, a', b')"
  shows "int_fields r"
proof -
  obtain na da where a: "a = \<lparr>numer = PInt na, denom = PInt da\<rparr>" "da \<noteq> 0" using assms(1) by (rule int_fieldsE)
  obtain nb db where b: "b = \<lparr>numer = PInt nb, denom = PInt db\<rparr>" "db \<noteq> 0" using assms(2) by (rule int_fieldsE)
  from match_denominators_ints[OF a(2) b(2), of na nb] obtain n1 n2 d where
    m: "d \<noteq> 0" "match_denominators a b = Inr (PInt d, \<lparr>numer = PInt n1, denom = PInt d\<rparr>, \<lparr>numer = PInt n2, denom = PInt d\<rparr>)"
    unfolding a b by blast
  obtain res where "Rational (PInt (n1 - n2)) (PInt d) smp = Inr res" "res = r"
    using assms(3) unfolding subtract_def m(2)
    by (cases "Rational (PInt (n1 - n2)) (PInt d) smp") (auto simp: ebind_def py_sub_def split: sum.splits)
  then show ?thesis using Rational_int_fields by blast
qed

lemma Rational_parse_int_fields:
  assumes "Rational_parse s = Inr r"
  shows "int_fields r"
  using assms Rational_int_fields
  by (auto simp: Rational_parse_def split: option.splits)

text \<open>
  C9, as stated, fails on the EXPONENT case: the float power is stored as the numerator
  as it is. For \<open>1/2\<close> to the power 1 (the input \<^verbatim>\<open>0.5^1\<close>) the dispatcher
  returns a Rational whose numerator is the float \<open>0.5\<close>.
\<close>

theorem op_exponent_float_numerator_counterexample:
  "op pow_integral \<lparr>numer = PInt 1, denom = PInt 2\<rparr> \<lparr>numer = PInt 1, denom = PInt 1\<rparr> EXPONENT
     = Inr \<lparr>numer = PFloat (1 / 2), denom = PInt 1\<rparr>
   \<and> \<not> is_int (PFloat (1 / 2))
   \<and> \<not> int_fields \<lparr>numer = PFloat (1 / 2), denom = PInt 1\<rparr>"
  by (simp add: op_def as_float_def py_defs Rational_def pow_integral_def round_binary64_half
      is_int_def int_fields_def)

text \<open>
  C9, amended. The constructor returns integer fields with a denominator that is not zero
  whenever it is given two integers, which is what \<^verbatim>\<open>Rational.parse\<close> gives it (the
  ratio that \<^verbatim>\<open>Decimal\<close> reports); so does \<^verbatim>\<open>Rational.parse\<close> on the literals
  of digits and points that the tokenizer passes, and so do \<^verbatim>\<open>add\<close>,
  \<^verbatim>\<open>subtract\<close>, \<^verbatim>\<open>multiply\<close>, \<^verbatim>\<open>divide\<close> and the dispatcher for these
  four operations, whenever their operands are such Rationals and they return. The
  EXPONENT case is different: whenever the power of the two floats is a float \<open>z\<close>,
  the dispatcher returns \<open>z\<close> itself as the numerator, over the integer denominator 1.
\<close>

theorem core_operations_fields:
  "(Rational (PInt n) (PInt d) True = Inr r7 \<longrightarrow> int_fields r7)
   \<and> ((\<forall>c \<in> set s. is_digit c \<or> c = CHR ''.'') \<and> Rational_parse s = Inr r0 \<longrightarrow> int_fields r0)
   \<and> (int_fields a \<and> int_fields b \<longrightarrow>
        (add a b smp = Inr (r1, a1, b1) \<longrightarrow> int_fields r1)
      \<and> (subtract a b smp = Inr (r2, a2, b2) \<longrightarrow> int_fields r2)
      \<and> (multiply a b smp = Inr r3 \<longrightarrow> int_fields r3)
      \<and> (divide a b smp = Inr r4 \<longrightarrow> int_fields r4)
      \<and> (opn \<noteq> EXPONENT \<and> op fpow a b opn = Inr r5 \<longrightarrow> int_fields r5))
   \<and> (as_float x = Inr u \<and> as_float y = Inr v \<and> fpow u v = Inr z \<longrightarrow>
        op fpow x y EXPONENT = Inr \<lparr>numer = PFloat z, denom = PInt 1\<rparr>
        \<and> \<not> int_fields \<lparr>numer = PFloat z, denom = PInt 1\<rparr>)"
proof (intro conjI impI)
  assume "Rational (PInt n) (PInt d) True = Inr r7"
  then show "int_fields r7" by (rule Rational_int_fields)
next
  assume "(\<forall>c \<in> set s. is_digit c \<or> c = CHR ''.'') \<and> Rational_parse s = Inr r0"
  then show "int_fields r0" using Rational_parse_int_fields by blast
next
  assume ab: "int_fields a \<and> int_fields b" and "add a b smp = Inr (r1, a1, b1)"
  then show "int_fields r1" using add_int_fields by blast
next
  assume ab: "int_fields a \<and> int_fields b" and "subtract a b smp = Inr (r2, a2, b2)"
  then show "int_fields r2" using subtract_int_fields by blast
next
  assume ab: "int_fields a \<and> int_fields b" and "multiply a b smp = Inr r3"
  then show "int_fields r3" using multiply_int_fields by blast
next
  assume ab: "int_fields a \<and> int_fields b" and "divide a b smp = Inr r4"
  then show "int_fields r4" using divide_int_fields by blast
next
  assume ab: "int_fields a \<and> int_fields b" and o: "opn \<noteq> EXPONENT \<and> op fpow a b opn = Inr r5"
  show "int_fields r5"
  proof (cases opn)
    case ADD
    then obtain t where "add a b True = Inr t" "fst t = r5"
      using o by (cases "add a b True") (auto simp: op_def ebind_def)
    then show ?thesis using ab add_int_fields[of a b True r5 "fst (snd t)" "snd (snd t)"] by (cases t) auto
  next
    case SUBTRACT
    then obtain t where "subtract a b True = Inr t" "fst t = r5"
      using o by (cases "subtract a b True") (auto simp: op_def ebind_def)
    then show ?thesis using ab subtract_int_fields[of a b True r5 "fst (snd t)" "snd (snd t)"] by (cases t) auto
  next
    case MULTIPLY
    then show ?thesis using o ab multiply_int_fields by (auto simp: op_def)
  next
    case DIVIDE
    then show ?thesis using o ab divide_int_fields by (auto simp: op_def)
  next
    case EXPONENT
    then show ?thesis using o by simp
  qed
next
  assume e: "as_float x = Inr u \<and> as_float y = Inr v \<and> fpow u v = Inr z"
  then show "op fpow x y EXPONENT = Inr \<lparr>numer = PFloat z, denom = PInt 1\<rparr>"
    by (simp add: op_def ebind_def Rational_def py_eq_def py_value_def)
next
  show "\<not> int_fields \<lparr>numer = PFloat z, denom = PInt 1\<rparr>"
    by (simp add: int_fields_def is_int_def)
qed

theorem core_operations_fields_witness:
  "Rational_parse ''0.5'' = Inr \<lparr>numer = PInt 1, denom = PInt 2\<rparr>
   \<and> int_fields \<lparr>numer = PInt 1, denom = PInt 2\<rparr>
   \<and> Rational (PInt (- 3)) (PInt 2) True = Inr \<lparr>numer = PInt (- 3), denom = PInt 2\<rparr>
   \<and> int_fields \<lparr>numer = PInt (- 3), denom = PInt 2\<rparr>
   \<and> multiply \<lparr>numer = PInt 1, denom = PInt 2\<rparr> \<lparr>numer = PInt 1, denom = PInt 3\<rparr> True
       = Inr \<lparr>numer = PInt 1, denom = PInt 6\<rparr>
   \<and> int_fields \<lparr>numer = PInt 1, denom = PInt 6\<rparr>
   \<and> as_float \<lparr>numer = PInt 2, denom = PInt 1\<rparr> = Inr 2
   \<and> as_float \<lparr>numer = PInt 3, denom = PInt 1\<rparr> = Inr 3
   \<and> pow_integral 2 3 = Inr 8
   \<and> op pow_integral \<lparr>numer = PInt 2, denom = PInt 1\<rparr> \<lparr>numer = PInt 3, denom = PInt 1\<rparr> EXPONENT
       = Inr \<lparr>numer = PFloat 8, denom = PInt 1\<rparr>
   \<and> \<not> int_fields \<lparr>numer = PFloat 8, denom = PInt 1\<rparr>"
proof -
  have g: "gcd (5::int) 10 = 5" by (simp add: gcd_non_0_int)
  have p: "Rational_parse ''0.5'' = Inr \<lparr>numer = PInt 1, denom = PInt 2\<rparr>"
    by (simp add: Rational_parse_def decimal_integer_ratio_def digits_value_def digit_value_def
        is_digit_def g Let_def Rational_def simplify_def py_defs)
  have l: "\<forall>c \<in> set ''0.5''. is_digit c \<or> c = CHR ''.''" by (simp add: is_digit_def)
  have g': "gcd (3::int) 2 = 1" by (simp add: gcd_non_0_int)
  have c: "Rational (PInt (- 3)) (PInt 2) True = Inr \<lparr>numer = PInt (- 3), denom = PInt 2\<rparr>"
    by (simp add: Rational_def simplify_def py_defs g')
  have m: "multiply \<lparr>numer = PInt 1, denom = PInt 2\<rparr> \<lparr>numer = PInt 1, denom = PInt 3\<rparr> True
       = Inr \<lparr>numer = PInt 1, denom = PInt 6\<rparr>"
    by (simp add: multiply_def Rational_def simplify_def py_defs)
  have f: "as_float \<lparr>numer = PInt 2, denom = PInt 1\<rparr> = Inr 2"
    "as_float \<lparr>numer = PInt 3, denom = PInt 1\<rparr> = Inr 3"
    by (simp_all add: as_float_def py_defs)
  have w: "pow_integral 2 3 = Inr 8" by (simp add: pow_integral_def)
  have i: "int_fields \<lparr>numer = PInt 1, denom = PInt 2\<rparr> \<and> int_fields \<lparr>numer = PInt 1, denom = PInt 3\<rparr>"
    by simp
  note t = core_operations_fields [where s = "''0.5''" and ?r0.0 = "\<lparr>numer = PInt 1, denom = PInt 2\<rparr>"
      and n = "- 3" and d = 2 and ?r7.0 = "\<lparr>numer = PInt (- 3), denom = PInt 2\<rparr>"
      and a = "\<lparr>numer = PInt 1, denom = PInt 2\<rparr>" and b = "\<lparr>numer = PInt 1, denom = PInt 3\<rparr>"
      and smp = True and ?r3.0 = "\<lparr>numer = PInt 1, denom = PInt 6\<rparr>" and fpow = pow_integral
      and x = "\<lparr>numer = PInt 2, denom = PInt 1\<rparr>" and y = "\<lparr>numer = PInt 3, denom = PInt 1\<rparr>"
      and u = 2 and v = 3 and z = 8]
  show ?thesis using t p l c m f w i by blast
qed

section \<open>Properties of consolidation\<close>

lemma consolidate_from_valid:
  assumes "is_valid ts" "odd (length ts)"
    and "\<forall>j < i. \<forall>opn. ts ! j = TOperation opn \<longrightarrow> opn \<notin> set ops"
  shows "\<exists>ts'. consolidate_from ops i ts = Inr ts' \<and> is_valid ts' \<and> odd (length ts')
            \<and> length ts' \<le> length ts \<and> (4 \<le> length ts \<longrightarrow> 3 \<le> length ts')
            \<and> top_ops ts' \<subseteq> top_ops ts
            \<and> (length ts' < 4 \<or> top_ops ts' \<inter> set ops = {})"
  using assms
proof (induction ops i ts rule: consolidate_from.induct)
  case (1 ops i ts)
  show ?case
  proof (cases "i < length ts \<and> 4 \<le> length ts")
    case False
    have "length ts < 4 \<or> top_ops ts \<inter> set ops = {}"
    proof (cases "length ts < 4")
      case True then show ?thesis by simp
    next
      case False
      with \<open>\<not> (i < length ts \<and> 4 \<le> length ts)\<close> have "length ts \<le> i" by simp
      then have "\<forall>j < length ts. \<forall>opn. ts ! j = TOperation opn \<longrightarrow> opn \<notin> set ops"
        using "1.prems"(3) by (meson less_le_trans)
      then have "\<And>opn. TOperation opn \<in> set ts \<Longrightarrow> opn \<notin> set ops"
        by (metis in_set_conv_nth)
      then have "top_ops ts \<inter> set ops = {}"
        by (auto simp: top_ops_def)
      then show ?thesis by simp
    qed
    then show ?thesis using False "1.prems"
      by (subst consolidate_from.simps) auto
  next
    case True
    note run = True
    show ?thesis
    proof (cases "\<exists>opn. ts ! i = TOperation opn \<and> opn \<in> set ops")
      case True
      then obtain opn where opn: "ts ! i = TOperation opn" "opn \<in> set ops" by blast
      from run have i: "i < length ts" by simp
      have oi: "odd i" using valid_op_index_odd[OF "1.prems"(1) i opn(1)] .
      then have i0: "i \<noteq> 0" by (cases i) auto
      define ts' where "ts' = take (i - 1) ts @ [TExpression [ts ! (i - 1), ts ! i, ts ! (i + 1)]] @ drop (i + 2) ts"
      have c1: "i + 1 < length ts" using valid_odd_op_not_last[OF "1.prems"(1) "1.prems"(2) i opn(1)] .
      note c = c1 collapse_valid[OF "1.prems"(1) c1 opn(1), folded ts'_def]
      have step: "consolidate_from ops i ts = consolidate_from ops 1 ts'"
        using run opn i0 c(1) by (subst consolidate_from.simps) (simp add: ts'_def)
      have od': "odd (length ts')" using c(2) "1.prems"(2) by (metis even_add even_numeral)
      have first: "\<forall>j < 1. \<forall>opn. ts' ! j = TOperation opn \<longrightarrow> opn \<notin> set ops"
      proof -
        have "0 < length ts'" using od' by (cases ts') auto
        then have "is_value (ts' ! 0)" using c(3) by (simp add: is_valid_nth)
        then show ?thesis by (auto simp: is_value_def)
      qed
      have "\<exists>r. consolidate_from ops 1 ts' = Inr r \<and> is_valid r \<and> odd (length r)
            \<and> length r \<le> length ts' \<and> (4 \<le> length ts' \<longrightarrow> 3 \<le> length r)
            \<and> top_ops r \<subseteq> top_ops ts'
            \<and> (length r < 4 \<or> top_ops r \<inter> set ops = {})"
        using "1.IH"(1)[OF run opn(1) opn(2) c(1)] i0 c(3) od' first
        by (simp add: ts'_def)
      then obtain r where r: "consolidate_from ops 1 ts' = Inr r" "is_valid r" "odd (length r)"
        "length r \<le> length ts'" "4 \<le> length ts' \<longrightarrow> 3 \<le> length r" "top_ops r \<subseteq> top_ops ts'"
        "length r < 4 \<or> top_ops r \<inter> set ops = {}" by blast
      have "3 \<le> length r"
      proof (cases "4 \<le> length ts'")
        case True then show ?thesis using r(5) by simp
      next
        case False
        then have "consolidate_from ops 1 ts' = Inr ts'" by (subst consolidate_from.simps) simp
        then have "r = ts'" using r(1) by simp
        moreover have "length ts' \<noteq> 2" using od' by auto
        ultimately show ?thesis using c(2) run by simp
      qed
      then show ?thesis using step r c(2) c(4) by auto
    next
      case False
      then have step: "consolidate_from ops i ts = consolidate_from ops (i + 1) ts"
        using run by (subst consolidate_from.simps) (auto split: token.splits)
      have nxt: "\<forall>j < i + 1. \<forall>opn. ts ! j = TOperation opn \<longrightarrow> opn \<notin> set ops"
        using "1.prems"(3) False by (auto simp: less_Suc_eq)
      show ?thesis
      proof (cases "ts ! i")
        case (TOperation opn)
        then have "opn \<notin> set ops" using False by simp
        from "1.IH"(2)[OF run TOperation this "1.prems"(1) "1.prems"(2) nxt] step
        show ?thesis by simp
      next
        case (TRational x)
        from "1.IH"(3)[OF run TRational "1.prems"(1) "1.prems"(2) nxt] step
        show ?thesis by simp
      next
        case (TExpression x)
        from "1.IH"(4)[OF run TExpression "1.prems"(1) "1.prems"(2) nxt] step
        show ?thesis by simp
      qed
    qed
  qed
qed


lemma valid_three:
  assumes "is_valid ts" "length ts = 3"
  shows "\<exists>a opn b. ts = [a, TOperation opn, b] \<and> is_value a \<and> is_value b"
proof -
  obtain a m b where ts: "ts = [a, m, b]"
    using assms(2) by (metis length_0_conv length_Suc_conv numeral_3_eq_3)
  have "is_value a" "\<not> is_value m" "is_value b"
    using assms(1) by (auto simp: ts is_valid_def split: if_splits)
  then show ?thesis using ts by (cases m) (auto simp: is_value_def)
qed

lemma valid_last_odd:
  assumes "is_valid ts" "ts \<noteq> []" "is_value (last ts)"
  shows "odd (length ts)"
proof -
  have "length ts - 1 < length ts" using assms(2) by simp
  then have "is_value (ts ! (length ts - 1)) = even (length ts - 1)"
    using assms(1) by (simp add: is_valid_nth)
  then have "even (length ts - 1)" using assms(2,3) by (simp add: last_conv_nth)
  then show ?thesis using assms(2) by (cases "length ts") auto
qed

text \<open>
  C2. Let the tokens of an Expression alternate value, operator, value, ... from a value
  to a value (\<open>is_valid\<close> holds and the last token is a value), with at least 4
  tokens. Then the three tiers of \<^verbatim>\<open>pemdas\<close> (EXPONENT, then MULTIPLY and DIVIDE,
  then ADD and SUBTRACT) terminate without an exception and leave exactly three tokens,
  a value, an operator and a value, which again satisfy the alternation.
\<close>

theorem pemdas_three_tokens:
  assumes "is_valid tokens" "tokens \<noteq> []" "is_value (last tokens)" "4 \<le> length tokens"
  shows "\<exists>a opn b. pemdas tokens = Inr [a, TOperation opn, b] \<and> is_value a \<and> is_value b
           \<and> is_valid [a, TOperation opn, b]"
proof -
  have od: "odd (length tokens)" using valid_last_odd[OF assms(1-3)] .
  obtain t1 where t1: "consolidate_from [EXPONENT] 0 tokens = Inr t1" "is_valid t1" "odd (length t1)"
      "length t1 \<le> length tokens" "3 \<le> length t1" "top_ops t1 \<subseteq> top_ops tokens"
      "length t1 < 4 \<or> top_ops t1 \<inter> set [EXPONENT] = {}"
    using consolidate_from_valid[OF assms(1) od, of 0 "[EXPONENT]"] assms(4) by auto
  obtain t2 where t2: "consolidate_from [MULTIPLY, DIVIDE] 0 t1 = Inr t2" "is_valid t2" "odd (length t2)"
      "length t2 \<le> length t1" "4 \<le> length t1 \<longrightarrow> 3 \<le> length t2" "top_ops t2 \<subseteq> top_ops t1"
      "length t2 < 4 \<or> top_ops t2 \<inter> set [MULTIPLY, DIVIDE] = {}"
    using consolidate_from_valid[OF t1(2) t1(3), of 0 "[MULTIPLY, DIVIDE]"] by auto
  obtain t3 where t3: "consolidate_from [ADD, SUBTRACT] 0 t2 = Inr t3" "is_valid t3" "odd (length t3)"
      "length t3 \<le> length t2" "4 \<le> length t2 \<longrightarrow> 3 \<le> length t3" "top_ops t3 \<subseteq> top_ops t2"
      "length t3 < 4 \<or> top_ops t3 \<inter> set [ADD, SUBTRACT] = {}"
    using consolidate_from_valid[OF t2(2) t2(3), of 0 "[ADD, SUBTRACT]"] by auto
  have run: "pemdas tokens = Inr t3"
    using t1(1) t2(1) t3(1) by (simp add: pemdas_def consolidate_def ebind_def)
  have keep: "length t < 4 \<Longrightarrow> consolidate_from ops 0 t = Inr t" for ops t
    by (subst consolidate_from.simps) simp
  have l2: "3 \<le> length t2"
  proof (cases "4 \<le> length t1")
    case True then show ?thesis using t2(5) by simp
  next
    case False then show ?thesis using keep[of t1 "[MULTIPLY, DIVIDE]"] t2(1) t1(5) by simp
  qed
  have l3: "3 \<le> length t3"
  proof (cases "4 \<le> length t2")
    case True then show ?thesis using t3(5) by simp
  next
    case False then show ?thesis using keep[of t2 "[ADD, SUBTRACT]"] t3(1) l2 by simp
  qed
  have "length t3 < 4"
  proof (rule ccontr)
    assume "\<not> length t3 < 4"
    then have big: "4 \<le> length t3" "4 \<le> length t2" "4 \<le> length t1"
      using t3(4) t2(4) by auto
    then have none: "top_ops t3 \<inter> {ADD, SUBTRACT} = {}" "top_ops t2 \<inter> {MULTIPLY, DIVIDE} = {}"
        "top_ops t1 \<inter> {EXPONENT} = {}"
      using t3(7) t2(7) t1(7) by auto
    have "\<not> is_value (t3 ! 1)" using t3(2) big(1) by (simp add: is_valid_nth)
    then obtain opn where o: "t3 ! 1 = TOperation opn" by (cases "t3 ! 1") (auto simp: is_value_def)
    moreover have "t3 ! 1 \<in> set t3" using big(1) by (intro nth_mem) simp
    ultimately have "opn \<in> top_ops t3" by (simp add: top_ops_def)
    then have "opn \<in> top_ops t3 \<and> opn \<in> top_ops t2 \<and> opn \<in> top_ops t1"
      using t3(6) t2(6) by auto
    then show False using none by (cases opn) auto
  qed
  then have "length t3 = 3" using l3 t3(3) by (cases "length t3 = 3") auto
  from valid_three[OF t3(2) this] run t3(2) show ?thesis by auto
qed

theorem pemdas_three_tokens_witness:
  "\<exists>a opn b.
     pemdas [TRational \<lparr>numer = PInt 1, denom = PInt 1\<rparr>, TOperation ADD,
             TRational \<lparr>numer = PInt 2, denom = PInt 1\<rparr>, TOperation MULTIPLY,
             TRational \<lparr>numer = PInt 3, denom = PInt 1\<rparr>] = Inr [a, TOperation opn, b]
     \<and> is_value a \<and> is_value b \<and> is_valid [a, TOperation opn, b]"
  by (rule pemdas_three_tokens) (simp_all add: is_valid_def is_value_def)

section \<open>Parsing and evaluating\<close>

text \<open>
  C1. Parsing and then calculating \<^verbatim>\<open>2+3*4\<close> returns the Rational 14/1, and
  \<^verbatim>\<open>(2+3)*4\<close> returns 20/1. For \<^verbatim>\<open>2^3^2\<close> the consolidation nests the left
  pair, \<open>(2^3)^2\<close>; so when the platform's power gives \<open>2.0 ** 3.0 = 8.0\<close> and
  \<open>8.0 ** 2.0 = 64.0\<close> the result is the Rational with numerator \<open>64.0\<close> and
  denominator 1, which \<^verbatim>\<open>__eq__\<close> finds equal to the Rational 64 (and not to 512).
\<close>

theorem calculate_precedence:
  "(\<exists>e. Expression_parse ''2+3*4'' = Inr e
        \<and> calculate fpow e = Inr \<lparr>numer = PInt 14, denom = PInt 1\<rparr>)
   \<and> (\<exists>e. Expression_parse ''(2+3)*4'' = Inr e
        \<and> calculate fpow e = Inr \<lparr>numer = PInt 20, denom = PInt 1\<rparr>)
   \<and> (\<exists>e. Expression_parse ''2^3^2'' = Inr e
        \<and> pemdas e = Inr [TExpression [TRational \<lparr>numer = PInt 2, denom = PInt 1\<rparr>, TOperation EXPONENT,
                                         TRational \<lparr>numer = PInt 3, denom = PInt 1\<rparr>],
                            TOperation EXPONENT, TRational \<lparr>numer = PInt 2, denom = PInt 1\<rparr>]
        \<and> (fpow 2 3 = Inr 8 \<and> fpow 8 2 = Inr 64 \<longrightarrow>
             calculate fpow e = Inr \<lparr>numer = PFloat 64, denom = PInt 1\<rparr>
             \<and> rational_eq \<lparr>numer = PFloat 64, denom = PInt 1\<rparr> \<lparr>numer = PInt 64, denom = PInt 1\<rparr> = Inr True
             \<and> rational_eq \<lparr>numer = PFloat 64, denom = PInt 1\<rparr> \<lparr>numer = PInt 512, denom = PInt 1\<rparr> = Inr False))"
proof (intro conjI)
  show "\<exists>e. Expression_parse ''2+3*4'' = Inr e
        \<and> calculate fpow e = Inr \<lparr>numer = PInt 14, denom = PInt 1\<rparr>"
    by (simp add: parse_defs calc_defs py_defs rat_defs)
  show "\<exists>e. Expression_parse ''(2+3)*4'' = Inr e
        \<and> calculate fpow e = Inr \<lparr>numer = PInt 20, denom = PInt 1\<rparr>"
    by (simp add: parse_defs calc_defs py_defs rat_defs)
  show "\<exists>e. Expression_parse ''2^3^2'' = Inr e
        \<and> pemdas e = Inr [TExpression [TRational \<lparr>numer = PInt 2, denom = PInt 1\<rparr>, TOperation EXPONENT,
                                         TRational \<lparr>numer = PInt 3, denom = PInt 1\<rparr>],
                            TOperation EXPONENT, TRational \<lparr>numer = PInt 2, denom = PInt 1\<rparr>]
        \<and> (fpow 2 3 = Inr 8 \<and> fpow 8 2 = Inr 64 \<longrightarrow>
             calculate fpow e = Inr \<lparr>numer = PFloat 64, denom = PInt 1\<rparr>
             \<and> rational_eq \<lparr>numer = PFloat 64, denom = PInt 1\<rparr> \<lparr>numer = PInt 64, denom = PInt 1\<rparr> = Inr True
             \<and> rational_eq \<lparr>numer = PFloat 64, denom = PInt 1\<rparr> \<lparr>numer = PInt 512, denom = PInt 1\<rparr> = Inr False)"
    by (simp add: parse_defs calc_defs py_defs rat_defs rational_eq_def copy_def)
qed

theorem calculate_precedence_witness:
  "pow_integral 2 3 = Inr 8 \<and> pow_integral 8 2 = Inr 64
   \<and> (\<exists>e. Expression_parse ''2^3^2'' = Inr e
        \<and> calculate pow_integral e = Inr \<lparr>numer = PFloat 64, denom = PInt 1\<rparr>)"
proof -
  have h: "pow_integral 2 3 = Inr 8 \<and> pow_integral 8 2 = Inr 64"
    by (simp add: pow_integral_def)
  then show ?thesis using calculate_precedence [of pow_integral] by auto
qed

text \<open>
  C3 (evaluated where the claim fails). The example is exact: \<^verbatim>\<open>1/3 + 1/3 + 1/3\<close>
  calculates to 1/1, and \<^verbatim>\<open>1/2 + 1/3\<close>, where \<^verbatim>\<open>add\<close> has to match the
  denominators, to 5/6. Division in general is not exact: \<^verbatim>\<open>simplify\<close> divides with
  the float division \<^verbatim>\<open>/\<close>, so \<^verbatim>\<open>9007199254740993/2\<close> calculates to the
  Rational \<open>9007199254740992/2\<close>, which denotes another number and is not in lowest
  terms.
\<close>

theorem calculate_division_rounds_large_numerator:
  "Expression_parse ''9007199254740993/2''
     = Inr [TRational \<lparr>numer = PInt 9007199254740993, denom = PInt 1\<rparr>, TOperation DIVIDE,
            TRational \<lparr>numer = PInt 2, denom = PInt 1\<rparr>]
   \<and> calculate fpow [TRational \<lparr>numer = PInt 9007199254740993, denom = PInt 1\<rparr>, TOperation DIVIDE,
                       TRational \<lparr>numer = PInt 2, denom = PInt 1\<rparr>]
     = Inr \<lparr>numer = PInt 9007199254740992, denom = PInt 2\<rparr>
   \<and> rat_value \<lparr>numer = PInt 9007199254740992, denom = PInt 2\<rparr> \<noteq> 9007199254740993 / 2
   \<and> (\<exists>e. Expression_parse ''1/3 + 1/3 + 1/3'' = Inr e
        \<and> calculate fpow e = Inr \<lparr>numer = PInt 1, denom = PInt 1\<rparr>)
   \<and> (\<exists>e. Expression_parse ''1/2 + 1/3'' = Inr e
        \<and> calculate fpow e = Inr \<lparr>numer = PInt 5, denom = PInt 6\<rparr>)"
proof (intro conjI)
  have g: "gcd (9007199254740993::int) 2 = 1" by (simp add: gcd_non_0_int)
  show "Expression_parse ''9007199254740993/2''
     = Inr [TRational \<lparr>numer = PInt 9007199254740993, denom = PInt 1\<rparr>, TOperation DIVIDE,
            TRational \<lparr>numer = PInt 2, denom = PInt 1\<rparr>]"
    by (simp add: parse_defs py_defs rat_defs)
  show "calculate fpow [TRational \<lparr>numer = PInt 9007199254740993, denom = PInt 1\<rparr>, TOperation DIVIDE,
                       TRational \<lparr>numer = PInt 2, denom = PInt 1\<rparr>]
     = Inr \<lparr>numer = PInt 9007199254740992, denom = PInt 2\<rparr>"
    by (simp add: calc_defs py_defs rat_defs g round_binary64_tie_example)
  show "rat_value \<lparr>numer = PInt 9007199254740992, denom = PInt 2\<rparr> \<noteq> 9007199254740993 / 2"
    by (simp add: rat_value_def py_value_def)
  show "\<exists>e. Expression_parse ''1/3 + 1/3 + 1/3'' = Inr e
        \<and> calculate fpow e = Inr \<lparr>numer = PInt 1, denom = PInt 1\<rparr>"
    by (simp add: parse_defs calc_defs py_defs rat_defs)
  have g2: "gcd (5::int) 6 = 1" "gcd (3::int) 6 = 3" "gcd (2::int) 6 = 2"
    by (simp_all add: gcd_non_0_int)
  show "\<exists>e. Expression_parse ''1/2 + 1/3'' = Inr e
        \<and> calculate fpow e = Inr \<lparr>numer = PInt 5, denom = PInt 6\<rparr>"
    by (simp add: parse_defs calc_defs py_defs rat_defs g2)
qed

text \<open>
  C4. When the scan reaches \<^verbatim>\<open>(\<close> and the last token emitted so far (after the
  pending literal has been flushed) is a value, a MULTIPLY token is appended before the
  nested Expression. So \<^verbatim>\<open>2(3+1)\<close> and \<^verbatim>\<open>(1+1)(2+2)\<close> parse with the
  implicit operator and both calculate to 8/1.
\<close>

theorem parse_implicit_multiply:
  "(i < length s \<and> s ! i = CHR ''(''
      \<and> flush tokens building_digit working_digit = Inr tokens1
      \<and> tokens1 \<noteq> [] \<and> is_value (last tokens1)
      \<and> find_matching_parens s i = Inr p
      \<and> parse_from (remove_spaces (take (p - (i + 1)) (drop (i + 1) s))) 0 [] False [] = Inr subex
    \<longrightarrow> parse_from s i tokens building_digit working_digit
        = parse_from s (p + 1) (tokens1 @ [TOperation MULTIPLY, TExpression subex]) False
            (if building_digit then [] else working_digit))
   \<and> Expression_parse ''2(3+1)''
        = Inr [TRational \<lparr>numer = PInt 2, denom = PInt 1\<rparr>, TOperation MULTIPLY,
               TExpression [TRational \<lparr>numer = PInt 3, denom = PInt 1\<rparr>, TOperation ADD,
                            TRational \<lparr>numer = PInt 1, denom = PInt 1\<rparr>]]
   \<and> (\<exists>e. Expression_parse ''2(3+1)'' = Inr e
        \<and> calculate fpow e = Inr \<lparr>numer = PInt 8, denom = PInt 1\<rparr>)
   \<and> Expression_parse ''(1+1)(2+2)''
        = Inr [TExpression [TRational \<lparr>numer = PInt 1, denom = PInt 1\<rparr>, TOperation ADD,
                            TRational \<lparr>numer = PInt 1, denom = PInt 1\<rparr>],
               TOperation MULTIPLY,
               TExpression [TRational \<lparr>numer = PInt 2, denom = PInt 1\<rparr>, TOperation ADD,
                            TRational \<lparr>numer = PInt 2, denom = PInt 1\<rparr>]]
   \<and> (\<exists>e. Expression_parse ''(1+1)(2+2)'' = Inr e
        \<and> calculate fpow e = Inr \<lparr>numer = PInt 8, denom = PInt 1\<rparr>)"
proof (intro conjI impI)
  assume a: "i < length s \<and> s ! i = CHR ''(''
      \<and> flush tokens building_digit working_digit = Inr tokens1
      \<and> tokens1 \<noteq> [] \<and> is_value (last tokens1)
      \<and> find_matching_parens s i = Inr p
      \<and> parse_from (remove_spaces (take (p - (i + 1)) (drop (i + 1) s))) 0 [] False [] = Inr subex"
  then show "parse_from s i tokens building_digit working_digit
        = parse_from s (p + 1) (tokens1 @ [TOperation MULTIPLY, TExpression subex]) False
            (if building_digit then [] else working_digit)"
    by (subst parse_from.simps) (simp add: is_digit_def Operation_parse_def)
next
  show "Expression_parse ''2(3+1)''
        = Inr [TRational \<lparr>numer = PInt 2, denom = PInt 1\<rparr>, TOperation MULTIPLY,
               TExpression [TRational \<lparr>numer = PInt 3, denom = PInt 1\<rparr>, TOperation ADD,
                            TRational \<lparr>numer = PInt 1, denom = PInt 1\<rparr>]]"
    by (simp add: parse_defs py_defs rat_defs is_value_def)
next
  show "\<exists>e. Expression_parse ''2(3+1)'' = Inr e
        \<and> calculate fpow e = Inr \<lparr>numer = PInt 8, denom = PInt 1\<rparr>"
    by (simp add: parse_defs calc_defs py_defs rat_defs)
next
  show "Expression_parse ''(1+1)(2+2)''
        = Inr [TExpression [TRational \<lparr>numer = PInt 1, denom = PInt 1\<rparr>, TOperation ADD,
                            TRational \<lparr>numer = PInt 1, denom = PInt 1\<rparr>],
               TOperation MULTIPLY,
               TExpression [TRational \<lparr>numer = PInt 2, denom = PInt 1\<rparr>, TOperation ADD,
                            TRational \<lparr>numer = PInt 2, denom = PInt 1\<rparr>]]"
    by (simp add: parse_defs py_defs rat_defs is_value_def)
next
  show "\<exists>e. Expression_parse ''(1+1)(2+2)'' = Inr e
        \<and> calculate fpow e = Inr \<lparr>numer = PInt 8, denom = PInt 1\<rparr>"
    by (simp add: parse_defs calc_defs py_defs rat_defs)
qed

theorem parse_implicit_multiply_witness:
  "flush [] True ''2'' = Inr [TRational \<lparr>numer = PInt 2, denom = PInt 1\<rparr>]
   \<and> find_matching_parens ''2(3+1)'' 1 = Inr 5
   \<and> parse_from ''2(3+1)'' 1 [] True ''2''
       = parse_from ''2(3+1)'' 6
           [TRational \<lparr>numer = PInt 2, denom = PInt 1\<rparr>, TOperation MULTIPLY,
            TExpression [TRational \<lparr>numer = PInt 3, denom = PInt 1\<rparr>, TOperation ADD,
                         TRational \<lparr>numer = PInt 1, denom = PInt 1\<rparr>]] False []"
proof -
  have f: "flush [] True ''2'' = Inr [TRational \<lparr>numer = PInt 2, denom = PInt 1\<rparr>]"
    by (simp add: parse_defs py_defs rat_defs)
  have m: "find_matching_parens ''2(3+1)'' 1 = Inr 5"
    by (simp add: find_matching_parens_def)
  have sub: "parse_from (remove_spaces (take (5 - (1 + 1)) (drop (1 + 1) ''2(3+1)''))) 0 [] False []
      = Inr [TRational \<lparr>numer = PInt 3, denom = PInt 1\<rparr>, TOperation ADD,
             TRational \<lparr>numer = PInt 1, denom = PInt 1\<rparr>]"
    by (simp add: parse_defs py_defs rat_defs)
  have "parse_from ''2(3+1)'' 1 [] True ''2''
       = parse_from ''2(3+1)'' (5 + 1)
           ([TRational \<lparr>numer = PInt 2, denom = PInt 1\<rparr>] @ [TOperation MULTIPLY,
            TExpression [TRational \<lparr>numer = PInt 3, denom = PInt 1\<rparr>, TOperation ADD,
                         TRational \<lparr>numer = PInt 1, denom = PInt 1\<rparr>]]) False (if True then [] else ''2'')"
    using parse_implicit_multiply [of 1 "''2(3+1)''" "[]" True "''2''"
        "[TRational \<lparr>numer = PInt 2, denom = PInt 1\<rparr>]" 5
        "[TRational \<lparr>numer = PInt 3, denom = PInt 1\<rparr>, TOperation ADD,
          TRational \<lparr>numer = PInt 1, denom = PInt 1\<rparr>]"] f m sub
    by (simp add: is_value_def)
  then show ?thesis using f m by simp
qed

text \<open>
  C5 (evaluated where the claim fails). \<^verbatim>\<open>is_valid\<close> only compares each token with
  the kind expected at its position: it accepts the empty token list and a list that
  ends on an operator. There \<^verbatim>\<open>calculate\<close> does not raise its own exception; it
  goes on to \<^verbatim>\<open>pemdas\<close> and fails with IndexError, at \<^verbatim>\<open>tokens[0]\<close> for the
  empty Expression, at \<^verbatim>\<open>tokens[2]\<close> for \<^verbatim>\<open>1+\<close>, and inside
  \<^verbatim>\<open>consolidate\<close> for \<^verbatim>\<open>1+2*\<close>.
\<close>

theorem calculate_trailing_operator_index_error:
  "is_valid [] \<and> calculate fpow [] = Inl IndexError
   \<and> Expression_parse ''1+'' = Inr [TRational \<lparr>numer = PInt 1, denom = PInt 1\<rparr>, TOperation ADD]
   \<and> is_valid [TRational \<lparr>numer = PInt 1, denom = PInt 1\<rparr>, TOperation ADD]
   \<and> calculate fpow [TRational \<lparr>numer = PInt 1, denom = PInt 1\<rparr>, TOperation ADD] = Inl IndexError
   \<and> (\<exists>e. Expression_parse ''1+2*'' = Inr e \<and> is_valid e
        \<and> consolidate [MULTIPLY, DIVIDE] e = Inl IndexError \<and> calculate fpow e = Inl IndexError)"
  by (simp add: parse_defs calc_defs py_defs rat_defs)

text \<open>
  Where \<^verbatim>\<open>is_valid\<close> does reject the tokens, \<^verbatim>\<open>calculate\<close> raises its exception
  before anything else.
\<close>

lemma calculate_rejected:
  "\<not> is_valid tokens \<Longrightarrow> calculate fpow tokens = Inl (Exception ''Can't calculate an invalid expression!'')"
  by (simp add: calculate.simps(1))

subsection \<open>Unmatched parentheses\<close>












end
